theory Spec2Isabelle
  imports Main "HOL-Library.Word"
begin

section \<open>Data model of the point-region quadtree (QuadTree.cpp)\<close>

text \<open>
  \<^verbatim>\<open>TScalar\<close> is \<^verbatim>\<open>uint64_t\<close>: a 64-bit word, whose \<open>+\<close> and \<open>-\<close> wrap around and
  whose \<open>div\<close> truncates. The fields \<^verbatim>\<open>x\<close>, \<^verbatim>\<open>y\<close> of a coordinate and \<^verbatim>\<open>min\<close>,
  \<^verbatim>\<open>max\<close> of a bounds carry a prefix here, since the bare names are variables and
  constants of HOL.
\<close>

type_synonym TScalar = "64 word"

datatype CCoordinate = CCoordinate (c_x: TScalar) (c_y: TScalar)

definition CCoordinate_default :: CCoordinate where
  "CCoordinate_default = CCoordinate 0 0"

definition coord_eq :: "CCoordinate \<Rightarrow> CCoordinate \<Rightarrow> bool" where
  "coord_eq a rhs = (c_x a = c_x rhs \<and> c_y a = c_y rhs)"

definition coord_ne :: "CCoordinate \<Rightarrow> CCoordinate \<Rightarrow> bool" where
  "coord_ne a rhs = (c_x a \<noteq> c_x rhs \<or> c_y a \<noteq> c_y rhs)"

definition coord_div :: "CCoordinate \<Rightarrow> CCoordinate \<Rightarrow> CCoordinate" where
  "coord_div a rhs = CCoordinate (c_x a div c_x rhs) (c_y a div c_y rhs)"

definition coord_add :: "CCoordinate \<Rightarrow> CCoordinate \<Rightarrow> CCoordinate" where
  "coord_add a rhs = CCoordinate (c_x a + c_x rhs) (c_y a + c_y rhs)"

definition coord_sub :: "CCoordinate \<Rightarrow> CCoordinate \<Rightarrow> CCoordinate" where
  "coord_sub a rhs = CCoordinate (c_x a - c_x rhs) (c_y a - c_y rhs)"

datatype EInsertResult = Insert_OutOfRegionBounds | Insert_DuplicateEntry | Insert_Success

datatype EFindResult = Find_OutOfRegionBounds | Find_NoEntry | Find_Success

datatype CBounds = CBounds (b_min: CCoordinate) (b_max: CCoordinate)

definition CBounds_default :: CBounds where
  "CBounds_default = CBounds CCoordinate_default CCoordinate_default"

definition Contains :: "CBounds \<Rightarrow> CCoordinate \<Rightarrow> bool" where
  "Contains b point =
     (c_x point \<ge> c_x (b_min b) \<and> c_y point \<ge> c_y (b_min b) \<and>
      c_x point \<le> c_x (b_max b) \<and> c_y point \<le> c_y (b_max b))"

definition bounds_eq :: "CBounds \<Rightarrow> CBounds \<Rightarrow> bool" where
  "bounds_eq b rhs = (coord_eq (b_min b) (b_min rhs) \<and> coord_eq (b_max b) (b_max rhs))"

definition bounds_ne :: "CBounds \<Rightarrow> CBounds \<Rightarrow> bool" where
  "bounds_ne b rhs = (coord_ne (b_min b) (b_min rhs) \<or> coord_ne (b_max b) (b_max rhs))"

datatype EType = Leaf | Region | Undefined

text \<open>
  A \<^verbatim>\<open>CNode*\<close> is an index into the node storage, \<open>None\<close> for \<^verbatim>\<open>nullptr\<close>.
\<close>

type_synonym ptr = "nat option"

record CNode =
  m_regionBounds :: CBounds
  m_point :: CCoordinate
  m_pNorthWest :: ptr
  m_pNorthEast :: ptr
  m_pSouthEast :: ptr
  m_pSouthWest :: ptr
  m_nodeType :: EType
  pPoolNext :: ptr

text \<open>The value-initialised node \<^verbatim>\<open>CNode()\<close>.\<close>

definition CNode_default :: CNode where
  "CNode_default =
     \<lparr> m_regionBounds = CBounds_default, m_point = CCoordinate_default,
       m_pNorthWest = None, m_pNorthEast = None, m_pSouthEast = None, m_pSouthWest = None,
       m_nodeType = Undefined, pPoolNext = None \<rparr>"

type_synonym memory = "nat \<Rightarrow> CNode"

text \<open>
  The tree object. \<open>m_pages\<close> holds the first index of every page; \<open>nodes\<close> is the
  storage that all pages live in. The model is of the build with assertions enabled: a
  failed \<^verbatim>\<open>assert\<close> ends the run with the error value.
\<close>

record CQuadTree =
  m_pTreeRoot :: ptr
  m_pageSize :: nat
  m_pPoolHead :: ptr
  m_pPoolRoot :: ptr
  m_pages :: "nat list"
  nodes :: memory

datatype error = AssertionFailed

section \<open>CNode::Split, the bounds of the four quadrants\<close>

definition SplitBounds :: "CBounds \<Rightarrow> CBounds \<times> CBounds \<times> CBounds \<times> CBounds" where
  "SplitBounds rb =
     (let min = b_min rb;
          max = b_max rb;
          centerMin = coord_add min (coord_div (coord_sub max min) (CCoordinate 2 2));
          centerMax = coord_add centerMin (CCoordinate 1 1);
          northWestBounds = CBounds min centerMin;
          northEastBounds = CBounds (CCoordinate (c_x centerMax) (c_y min))
                                    (CCoordinate (c_x max) (c_y centerMin));
          southEastBounds = CBounds centerMax max;
          southWestBounds = CBounds (CCoordinate (c_x min) (c_y centerMax))
                                    (CCoordinate (c_x centerMin) (c_y max))
      in (northWestBounds, northEastBounds, southEastBounds, southWestBounds))"

section \<open>The pool allocator\<close>

text \<open>
  \<^verbatim>\<open>AllocatePage\<close>: \<^verbatim>\<open>new CNode[m_pageSize]()\<close> yields \<open>m_pageSize\<close> value-initialised
  nodes at indices not in use so far: the pages lie one after another in the storage, page
  number \<open>i\<close> at \<open>i * m_pageSize\<close>. Running out of memory is not modelled.
\<close>

definition new_page :: "memory \<Rightarrow> nat \<Rightarrow> nat \<Rightarrow> memory" where
  "new_page mem pPages pageSize =
     (\<lambda>a. if pPages \<le> a \<and> a < pPages + pageSize then CNode_default else mem a)"

text \<open>The loop \<^verbatim>\<open>for (size_t i = 0; i < lastIndex; ++i) pPages[i].pPoolNext = &pPages[i + 1]\<close>.\<close>

function link_page :: "memory \<Rightarrow> nat \<Rightarrow> nat \<Rightarrow> nat \<Rightarrow> memory" where
  "link_page mem pPages lastIndex i =
     (if i < lastIndex
      then link_page (mem(pPages + i := (mem (pPages + i))\<lparr>pPoolNext := Some (pPages + i + 1)\<rparr>))
             pPages lastIndex (i + 1)
      else mem)"
  by pat_completeness auto
termination
  by (relation "measure (\<lambda>(mem, pPages, lastIndex, i). lastIndex - i)") auto

declare link_page.simps [simp del]

definition AllocatePage :: "CQuadTree \<Rightarrow> error + CQuadTree" where
  "AllocatePage t =
     (if \<not> m_pageSize t > 0 then Inl AssertionFailed
      else
        let pPages = length (m_pages t) * m_pageSize t;
            mem1 = new_page (nodes t) pPages (m_pageSize t);
            lastIndex = m_pageSize t - 1;
            mem2 = link_page mem1 pPages lastIndex 0;
            mem3 = mem2(pPages + lastIndex := (mem2 (pPages + lastIndex))\<lparr>pPoolNext := None\<rparr>);
            t1 = t\<lparr>m_pages := m_pages t @ [pPages], nodes := mem3\<rparr>
        in if m_pPoolRoot t1 = None
           then (if m_pPoolHead t1 = None
                 then Inr (t1\<lparr>m_pPoolRoot := Some pPages, m_pPoolHead := Some pPages\<rparr>)
                 else Inl AssertionFailed)
           else (case m_pPoolHead t1 of
                   Some h \<Rightarrow>
                     Inr (t1\<lparr>nodes := (nodes t1)(h := (nodes t1 h)\<lparr>pPoolNext := Some pPages\<rparr>)\<rparr>)
                 | None \<Rightarrow> Inl AssertionFailed))"

definition needs_page :: "CQuadTree \<Rightarrow> bool" where
  "needs_page t =
     (case m_pPoolHead t of None \<Rightarrow> True | Some h \<Rightarrow> pPoolNext (nodes t h) = None)"

definition AllocateNode :: "CQuadTree \<Rightarrow> error + CQuadTree \<times> nat" where
  "AllocateNode t =
     (case (if needs_page t then AllocatePage t else Inr t) of
        Inl e \<Rightarrow> Inl e
      | Inr t1 \<Rightarrow>
          (case m_pPoolHead t1 of
             None \<Rightarrow> Inl AssertionFailed
           | Some pAllocatedNode \<Rightarrow>
               (case pPoolNext (nodes t1 pAllocatedNode) of
                  None \<Rightarrow> Inl AssertionFailed
                | Some pPoolNext' \<Rightarrow>
                    Inr (t1\<lparr>nodes := (nodes t1)
                                 (pAllocatedNode := CNode_default\<lparr>pPoolNext := Some pPoolNext'\<rparr>),
                             m_pPoolHead := Some pPoolNext'\<rparr>,
                         pAllocatedNode))))"

definition InitializeAsRegion :: "CNode \<Rightarrow> CBounds \<Rightarrow> error + CNode" where
  "InitializeAsRegion n regionBounds =
     (let n1 = n\<lparr>m_regionBounds := regionBounds, m_nodeType := Region\<rparr>
      in if coord_eq (m_point n1) CCoordinate_default then Inr n1 else Inl AssertionFailed)"

definition AllocateRegionNode :: "CQuadTree \<Rightarrow> CBounds \<Rightarrow> error + CQuadTree \<times> nat" where
  "AllocateRegionNode t regionBounds =
     (case AllocateNode t of
        Inl e \<Rightarrow> Inl e
      | Inr (t1, pLeafNode) \<Rightarrow>
          (case InitializeAsRegion (nodes t1 pLeafNode) regionBounds of
             Inl e \<Rightarrow> Inl e
           | Inr n \<Rightarrow> Inr (t1\<lparr>nodes := (nodes t1)(pLeafNode := n)\<rparr>, pLeafNode)))"

section \<open>CNode: Split, ContainingSubRegion, Find\<close>

definition has_child :: "CNode \<Rightarrow> bool" where
  "has_child n =
     (m_pNorthWest n \<noteq> None \<or> m_pNorthEast n \<noteq> None \<or>
      m_pSouthEast n \<noteq> None \<or> m_pSouthWest n \<noteq> None)"

definition set_node :: "CQuadTree \<Rightarrow> nat \<Rightarrow> (CNode \<Rightarrow> CNode) \<Rightarrow> CQuadTree" where
  "set_node t a f = t\<lparr>nodes := (nodes t)(a := f (nodes t a))\<rparr>"

text \<open>
  \<^verbatim>\<open>Split\<close> on the node at \<open>this\<close>: each child pointer is stored as soon as its node is
  allocated, in the order of the source. The functions \<^verbatim>\<open>AllocateLeafNode\<close> and
  \<^verbatim>\<open>InitializeAsLeaf\<close> are never called in the source and are left out.
\<close>

definition Split :: "nat \<Rightarrow> CQuadTree \<Rightarrow> error + CQuadTree" where
  "Split this quadTree =
     (if has_child (nodes quadTree this) then Inl AssertionFailed
      else
        (case SplitBounds (m_regionBounds (nodes quadTree this)) of
           (northWestBounds, northEastBounds, southEastBounds, southWestBounds) \<Rightarrow>
        (case AllocateRegionNode quadTree northWestBounds of Inl e \<Rightarrow> Inl e | Inr (t1, nw) \<Rightarrow>
        (case AllocateRegionNode (set_node t1 this (\<lambda>n. n\<lparr>m_pNorthWest := Some nw\<rparr>))
                northEastBounds of Inl e \<Rightarrow> Inl e | Inr (t2, ne) \<Rightarrow>
        (case AllocateRegionNode (set_node t2 this (\<lambda>n. n\<lparr>m_pNorthEast := Some ne\<rparr>))
                southEastBounds of Inl e \<Rightarrow> Inl e | Inr (t3, se) \<Rightarrow>
        (case AllocateRegionNode (set_node t3 this (\<lambda>n. n\<lparr>m_pSouthEast := Some se\<rparr>))
                southWestBounds of Inl e \<Rightarrow> Inl e | Inr (t4, sw) \<Rightarrow>
           Inr (set_node t4 this
                  (\<lambda>n. n\<lparr>m_pSouthWest := Some sw, m_nodeType := Region,
                          m_point := CCoordinate_default\<rparr>))))))))"

text \<open>
  The choice among the four children that \<^verbatim>\<open>CNode::Find\<close> and
  \<^verbatim>\<open>ContainingSubRegion\<close> both make once \<^verbatim>\<open>m_pNorthWest\<close> is known to be set: the first
  of north-west, north-east, south-east whose bounds contain the point, else south-west,
  which is asserted to contain it; the other three pointers are asserted to be set.
\<close>

definition choose_child :: "memory \<Rightarrow> CNode \<Rightarrow> nat \<Rightarrow> CCoordinate \<Rightarrow> error + nat" where
  "choose_child mem n nw point =
     (case (m_pNorthEast n, m_pSouthEast n, m_pSouthWest n) of
        (Some ne, Some se, Some sw) \<Rightarrow>
          if Contains (m_regionBounds (mem nw)) point then Inr nw
          else if Contains (m_regionBounds (mem ne)) point then Inr ne
          else if Contains (m_regionBounds (mem se)) point then Inr se
          else if Contains (m_regionBounds (mem sw)) point then Inr sw
          else Inl AssertionFailed
      | _ \<Rightarrow> Inl AssertionFailed)"

definition ContainingSubRegion :: "memory \<Rightarrow> nat \<Rightarrow> CCoordinate \<Rightarrow> error + ptr" where
  "ContainingSubRegion mem this point =
     (if \<not> Contains (m_regionBounds (mem this)) point then Inr None
      else
        (case m_pNorthWest (mem this) of
           Some nw \<Rightarrow>
             if m_nodeType (mem this) \<noteq> Region then Inl AssertionFailed
             else (case choose_child mem (mem this) nw point of
                     Inl e \<Rightarrow> Inl e
                   | Inr c \<Rightarrow> Inr (Some c))
         | None \<Rightarrow> Inr None))"

text \<open>
  \<^verbatim>\<open>CNode::Find\<close>. The \<^verbatim>\<open>while\<close> loop follows pointers, so on an arbitrary storage it
  need not end: the function is partial, \<open>None\<close> meaning that it does not return. The
  result holds the found node, the \<^verbatim>\<open>*pFoundNode\<close> of the source.
\<close>

definition Find_result :: "CNode \<Rightarrow> nat \<Rightarrow> CCoordinate \<Rightarrow> error + EFindResult \<times> nat" where
  "Find_result n pCurrentNode point =
     (if m_nodeType n = Region then Inr (Find_NoEntry, pCurrentNode)
      else if m_nodeType n \<noteq> Leaf then Inl AssertionFailed
      else Inr (if coord_eq (m_point n) point then Find_Success else Find_NoEntry,
                pCurrentNode))"

partial_function (option) CNode_Find ::
  "memory \<Rightarrow> nat \<Rightarrow> CCoordinate \<Rightarrow> (error + EFindResult \<times> nat) option" where
  "CNode_Find mem pCurrentNode point =
     (case m_pNorthWest (mem pCurrentNode) of
        Some nw \<Rightarrow>
          (case choose_child mem (mem pCurrentNode) nw point of
             Inl e \<Rightarrow> Some (Inl e)
           | Inr c \<Rightarrow> CNode_Find mem c point)
      | None \<Rightarrow> Some (Find_result (mem pCurrentNode) pCurrentNode point))"

declare CNode_Find.simps [code]

section \<open>CQuadTree: Reset, the constructor, Find, Insert\<close>

definition full_bounds :: CBounds where
  "full_bounds = CBounds (CCoordinate 0 0) (CCoordinate (- 1) (- 1))"

definition Reset :: "CQuadTree \<Rightarrow> error + CQuadTree" where
  "Reset t =
     (case AllocateRegionNode (t\<lparr>m_pPoolHead := m_pPoolRoot t\<rparr>) full_bounds of
        Inl e \<Rightarrow> Inl e
      | Inr (t1, r) \<Rightarrow> Inr (t1\<lparr>m_pTreeRoot := Some r\<rparr>))"

text \<open>
  The constructor: no page yet, the root pointer not yet set (the source leaves it
  uninitialised until \<^verbatim>\<open>Reset\<close> assigns it).
\<close>

definition CQuadTree_new :: "nat \<Rightarrow> error + CQuadTree" where
  "CQuadTree_new pageSize =
     (if \<not> pageSize > 0 then Inl AssertionFailed
      else Reset \<lparr> m_pTreeRoot = None, m_pageSize = pageSize, m_pPoolHead = None,
                   m_pPoolRoot = None, m_pages = [], nodes = (\<lambda>a. CNode_default) \<rparr>)"

definition Find :: "CQuadTree \<Rightarrow> CCoordinate \<Rightarrow> (error + EFindResult) option" where
  "Find t point =
     (case m_pTreeRoot t of
        None \<Rightarrow> Some (Inl AssertionFailed)
      | Some r \<Rightarrow>
          if \<not> Contains (m_regionBounds (nodes t r)) point then Some (Inl AssertionFailed)
          else (case CNode_Find (nodes t) r point of
                  None \<Rightarrow> None
                | Some (Inl e) \<Rightarrow> Some (Inl e)
                | Some (Inr (findResult, pFoundNode)) \<Rightarrow> Some (Inr findResult)))"

text \<open>
  The \<^verbatim>\<open>do ... while (pExistingSubRegion == pSubRegion)\<close> loop of \<^verbatim>\<open>Insert\<close>. The last
  argument counts the iterations done so far; it is not in the source and has no
  influence on the run.
\<close>

partial_function (option) Insert_loop ::
  "CQuadTree \<Rightarrow> nat \<Rightarrow> CCoordinate \<Rightarrow> CCoordinate \<Rightarrow> nat \<Rightarrow>
     (error + CQuadTree \<times> nat \<times> nat \<times> nat) option" where
  "Insert_loop t pSubRegion existingPoint point iterations =
     (case Split pSubRegion t of
        Inl e \<Rightarrow> Some (Inl e)
      | Inr t1 \<Rightarrow>
          (case ContainingSubRegion (nodes t1) pSubRegion existingPoint of
             Inl e \<Rightarrow> Some (Inl e)
           | Inr None \<Rightarrow> Some (Inl AssertionFailed)
           | Inr (Some pExistingSubRegion') \<Rightarrow>
               (case ContainingSubRegion (nodes t1) pSubRegion point of
                  Inl e \<Rightarrow> Some (Inl e)
                | Inr None \<Rightarrow> Some (Inl AssertionFailed)
                | Inr (Some pSubRegion') \<Rightarrow>
                    if pExistingSubRegion' = pSubRegion'
                    then Insert_loop t1 pSubRegion' existingPoint point (iterations + 1)
                    else Some (Inr (t1, pExistingSubRegion', pSubRegion', iterations + 1)))))"

declare Insert_loop.simps [code]

definition Insert :: "CQuadTree \<Rightarrow> CCoordinate \<Rightarrow> (error + CQuadTree \<times> EInsertResult) option" where
  "Insert t point =
     (case m_pTreeRoot t of
        None \<Rightarrow> Some (Inl AssertionFailed)
      | Some r \<Rightarrow>
          if \<not> Contains (m_regionBounds (nodes t r)) point then Some (Inl AssertionFailed)
          else
            (case CNode_Find (nodes t) r point of
               None \<Rightarrow> None
             | Some (Inl e) \<Rightarrow> Some (Inl e)
             | Some (Inr (findResult, pFoundNode)) \<Rightarrow>
                 if findResult = Find_Success
                 then (if coord_eq (m_point (nodes t pFoundNode)) point
                       then Some (Inr (t, Insert_DuplicateEntry))
                       else Some (Inl AssertionFailed))
                 else if m_nodeType (nodes t pFoundNode) = Leaf
                 then (if has_child (nodes t pFoundNode) then Some (Inl AssertionFailed)
                       else
                         (case Insert_loop t pFoundNode (m_point (nodes t pFoundNode)) point 0 of
                            None \<Rightarrow> None
                          | Some (Inl e) \<Rightarrow> Some (Inl e)
                          | Some (Inr (t1, pExistingSubRegion, pSubRegion, iterations)) \<Rightarrow>
                              Some (Inr
                                (set_node
                                   (set_node t1 pExistingSubRegion
                                      (\<lambda>n. n\<lparr>m_nodeType := Leaf,
                                              m_point := m_point (nodes t pFoundNode)\<rparr>))
                                   pSubRegion (\<lambda>n. n\<lparr>m_nodeType := Leaf, m_point := point\<rparr>),
                                 Insert_Success))))
                 else if m_nodeType (nodes t pFoundNode) \<noteq> Region then Some (Inl AssertionFailed)
                 else Some (Inr (set_node t pFoundNode
                                   (\<lambda>n. n\<lparr>m_nodeType := Leaf, m_point := point\<rparr>),
                                 Insert_Success))))"

section \<open>SanityCheck\<close>

text \<open>
  The assertions of \<^verbatim>\<open>SanityCheckChild_Recursive\<close> on the bounds of a region with
  children: the eight containment assertions, then the twenty-four comparisons between
  neighbouring quadrants, in the order of the source.
\<close>

definition children_asserts :: "CBounds \<Rightarrow> CBounds \<Rightarrow> CBounds \<Rightarrow> CBounds \<Rightarrow> CBounds \<Rightarrow> bool" where
  "children_asserts rb nw ne se sw =
     (Contains rb (b_min nw) \<and> Contains rb (b_max nw) \<and>
      Contains rb (b_min ne) \<and> Contains rb (b_max ne) \<and>
      Contains rb (b_min se) \<and> Contains rb (b_max se) \<and>
      Contains rb (b_min sw) \<and> Contains rb (b_max sw) \<and>

      c_x (b_min nw) < c_x (b_min ne) \<and>
      c_y (b_min nw) = c_y (b_min ne) \<and>
      c_x (b_max nw) < c_x (b_min ne) \<and>
      c_x (b_max nw) < c_x (b_max ne) \<and>
      c_y (b_min nw) < c_y (b_max ne) \<and>
      c_y (b_max nw) = c_y (b_max ne) \<and>

      c_x (b_min ne) = c_x (b_min se) \<and>
      c_y (b_min ne) < c_y (b_min se) \<and>
      c_x (b_max ne) > c_x (b_min se) \<and>
      c_x (b_max ne) = c_x (b_max se) \<and>
      c_y (b_min ne) < c_y (b_max se) \<and>
      c_y (b_max ne) < c_y (b_max se) \<and>

      c_x (b_min se) > c_x (b_min sw) \<and>
      c_y (b_min se) = c_y (b_min sw) \<and>
      c_x (b_max se) > c_x (b_min sw) \<and>
      c_x (b_max se) > c_x (b_max sw) \<and>
      c_y (b_min se) < c_y (b_max sw) \<and>
      c_y (b_max se) = c_y (b_max sw) \<and>

      c_x (b_min sw) = c_x (b_min nw) \<and>
      c_y (b_min sw) > c_y (b_min nw) \<and>
      c_x (b_max sw) > c_x (b_min nw) \<and>
      c_x (b_max sw) = c_x (b_max nw) \<and>
      c_y (b_min sw) > c_y (b_max nw) \<and>
      c_y (b_max sw) > c_y (b_max nw))"

text \<open>The assertions on one node that come before the \<^verbatim>\<open>switch\<close>.\<close>

definition bounds_asserts :: "CBounds \<Rightarrow> bool" where
  "bounds_asserts rb =
     (bounds_ne rb (CBounds CCoordinate_default CCoordinate_default) \<and>
      c_x (b_max rb) \<ge> c_x (b_min rb) \<and>
      c_y (b_max rb) \<ge> c_y (b_min rb) \<and>
      c_x (b_min rb) \<le> c_x (b_max rb) \<and>
      c_y (b_min rb) \<le> c_y (b_max rb))"

text \<open>
  The assertion \<^verbatim>\<open>if (child->m_nodeType == Leaf) assert(bounds.Contains(child->m_point))\<close>
  that precedes the recursive call on each child.
\<close>

definition leaf_child_assert :: "CBounds \<Rightarrow> CNode \<Rightarrow> bool" where
  "leaf_child_assert rb child = (if m_nodeType child = Leaf then Contains rb (m_point child) else True)"

text \<open>
  The recursion follows pointers, so the function is partial as \<open>CNode_Find\<close> is:
  \<open>None\<close> when it does not return, \<open>Some (Inl AssertionFailed)\<close> when an assertion fires,
  \<open>Some (Inr ())\<close> when the check passes.
\<close>

partial_function (option) SanityCheckChild_Recursive ::
  "memory \<Rightarrow> ptr \<Rightarrow> (error + unit) option" where
  "SanityCheckChild_Recursive mem pChild =
     (case pChild of
        None \<Rightarrow> Some (Inl AssertionFailed)
      | Some c \<Rightarrow>
          if \<not> bounds_asserts (m_regionBounds (mem c)) then Some (Inl AssertionFailed)
          else
            (case m_nodeType (mem c) of
               Leaf \<Rightarrow>
                 if has_child (mem c) then Some (Inl AssertionFailed)
                 else if \<not> Contains (m_regionBounds (mem c)) (m_point (mem c))
                 then Some (Inl AssertionFailed)
                 else Some (Inr ())
             | Region \<Rightarrow>
                 if \<not> coord_eq (m_point (mem c)) (CCoordinate 0 0) then Some (Inl AssertionFailed)
                 else
                   (case m_pNorthWest (mem c) of
                      None \<Rightarrow> if has_child (mem c) then Some (Inl AssertionFailed) else Some (Inr ())
                    | Some nw \<Rightarrow>
                        (case (m_pNorthEast (mem c), m_pSouthEast (mem c), m_pSouthWest (mem c)) of
                           (Some ne, Some se, Some sw) \<Rightarrow>
                             if \<not> children_asserts (m_regionBounds (mem c))
                                    (m_regionBounds (mem nw)) (m_regionBounds (mem ne))
                                    (m_regionBounds (mem se)) (m_regionBounds (mem sw))
                             then Some (Inl AssertionFailed)
                             else if \<not> leaf_child_assert (m_regionBounds (mem c)) (mem nw)
                             then Some (Inl AssertionFailed)
                             else
                               Option.bind (SanityCheckChild_Recursive mem (Some nw)) (\<lambda>r1.
                               case r1 of Inl e \<Rightarrow> Some (Inl e) | Inr u1 \<Rightarrow>
                               if \<not> leaf_child_assert (m_regionBounds (mem c)) (mem ne)
                               then Some (Inl AssertionFailed)
                               else
                               Option.bind (SanityCheckChild_Recursive mem (Some ne)) (\<lambda>r2.
                               case r2 of Inl e \<Rightarrow> Some (Inl e) | Inr u2 \<Rightarrow>
                               if \<not> leaf_child_assert (m_regionBounds (mem c)) (mem se)
                               then Some (Inl AssertionFailed)
                               else
                               Option.bind (SanityCheckChild_Recursive mem (Some se)) (\<lambda>r3.
                               case r3 of Inl e \<Rightarrow> Some (Inl e) | Inr u3 \<Rightarrow>
                               if \<not> leaf_child_assert (m_regionBounds (mem c)) (mem sw)
                               then Some (Inl AssertionFailed)
                               else SanityCheckChild_Recursive mem (Some sw))))
                         | _ \<Rightarrow> Some (Inl AssertionFailed)))
             | Undefined \<Rightarrow> Some (Inl AssertionFailed)))"

declare SanityCheckChild_Recursive.simps [code]

definition SanityCheck :: "CQuadTree \<Rightarrow> (error + unit) option" where
  "SanityCheck t = SanityCheckChild_Recursive (nodes t) (m_pTreeRoot t)"

section \<open>Sequences of calls on one tree\<close>

text \<open>
  A client of the class constructs a tree and then calls \<^verbatim>\<open>Insert\<close> and \<^verbatim>\<open>Reset\<close> in any
  order (\<^verbatim>\<open>Find\<close> and \<^verbatim>\<open>SanityCheck\<close> change nothing). \<open>calls\<close> runs such a sequence,
  stopping at the first failed assertion; \<open>inserted\<close> is the set of the coordinates
  inserted since the last \<^verbatim>\<open>Reset\<close>.
\<close>

datatype call = Call_Insert CCoordinate | Call_Reset

fun calls :: "CQuadTree \<Rightarrow> call list \<Rightarrow> (error + CQuadTree) option" where
  "calls t [] = Some (Inr t)"
| "calls t (Call_Insert point # cs) =
     (case Insert t point of
        None \<Rightarrow> None
      | Some (Inl e) \<Rightarrow> Some (Inl e)
      | Some (Inr (t1, r)) \<Rightarrow> calls t1 cs)"
| "calls t (Call_Reset # cs) =
     (case Reset t of Inl e \<Rightarrow> Some (Inl e) | Inr t1 \<Rightarrow> calls t1 cs)"

definition session :: "nat \<Rightarrow> call list \<Rightarrow> (error + CQuadTree) option" where
  "session pageSize cs =
     (case CQuadTree_new pageSize of Inl e \<Rightarrow> Some (Inl e) | Inr t \<Rightarrow> calls t cs)"

fun inserted_from :: "CCoordinate set \<Rightarrow> call list \<Rightarrow> CCoordinate set" where
  "inserted_from S [] = S"
| "inserted_from S (Call_Insert point # cs) = inserted_from (insert point S) cs"
| "inserted_from S (Call_Reset # cs) = inserted_from {} cs"

definition inserted :: "call list \<Rightarrow> CCoordinate set" where
  "inserted cs = inserted_from {} cs"

section \<open>Predicates of the statements and of the proofs\<close>

text \<open>Bounds with \<open>min \<le> max\<close> on both axes, and bounds whose corners lie in other bounds.\<close>

definition well_ordered :: "CBounds \<Rightarrow> bool" where
  "well_ordered b = (c_x (b_min b) \<le> c_x (b_max b) \<and> c_y (b_min b) \<le> c_y (b_max b))"

definition inside :: "CBounds \<Rightarrow> CBounds \<Rightarrow> bool" where
  "inside child parent = (Contains parent (b_min child) \<and> Contains parent (b_max child))"

text \<open>
  The bounds that occur in a tree: squares of side \<open>2 ^ j\<close> whose lower corner is a
  multiple of \<open>2 ^ j\<close> on both axes. \<open>seg\<close> is one axis of such a square; the root has
  level 64 and every split lowers the level by one.
\<close>

definition seg :: "nat \<Rightarrow> 64 word \<Rightarrow> 64 word \<Rightarrow> bool" where
  "seg j lo hi = (j \<le> 64 \<and> 2 ^ j dvd unat lo \<and> unat hi + 1 = unat lo + 2 ^ j)"

definition cell :: "nat \<Rightarrow> CBounds \<Rightarrow> bool" where
  "cell j b = (seg j (c_x (b_min b)) (c_x (b_max b)) \<and> seg j (c_y (b_min b)) (c_y (b_max b)))"

text \<open>
  The pool invariant. \<open>top t\<close> is the number of nodes in all pages. The free list runs
  through all of them in index order, whether handed out or not (\<^verbatim>\<open>AllocateNode\<close> keeps
  the link of the node it hands out), and ends at the last node of the last page; the head
  \<open>k\<close> is the first node not handed out since the last \<^verbatim>\<open>Reset\<close>, so the nodes below \<open>k\<close>
  are the ones in use.
\<close>

definition top :: "CQuadTree \<Rightarrow> nat" where
  "top t = length (m_pages t) * m_pageSize t"

definition pool_ok :: "CQuadTree \<Rightarrow> nat \<Rightarrow> bool" where
  "pool_ok t k =
     (2 \<le> m_pageSize t \<and> m_pPoolRoot t = Some 0 \<and> m_pPoolHead t = Some k \<and> k < top t \<and>
      (\<forall>a. a < top t \<longrightarrow>
           pPoolNext (nodes t a) = (if Suc a < top t then Some (Suc a) else None)))"

text \<open>The node that \<^verbatim>\<open>AllocateRegionNode\<close> hands out.\<close>

definition region_node :: "CBounds \<Rightarrow> nat \<Rightarrow> CNode" where
  "region_node rb nx =
     CNode_default\<lparr>m_regionBounds := rb, m_nodeType := Region, pPoolNext := Some nx\<rparr>"

text \<open>
  \<open>descent mem p a g\<close>: the loop of \<^verbatim>\<open>CNode::Find\<close>, started at node \<open>a\<close> with the point
  \<open>p\<close>, ends at node \<open>g\<close> without a failed assertion.
\<close>

inductive descent :: "memory \<Rightarrow> CCoordinate \<Rightarrow> nat \<Rightarrow> nat \<Rightarrow> bool"
  for mem :: memory and p :: CCoordinate where
  stop: "m_pNorthWest (mem a) = None \<Longrightarrow> descent mem p a a"
| step: "m_pNorthWest (mem a) = Some nw \<Longrightarrow> choose_child mem (mem a) nw p = Inr c \<Longrightarrow>
         descent mem p c g \<Longrightarrow> descent mem p a g"

text \<open>
  The tree invariant, for the nodes in use (below \<open>k\<close>) and the set \<open>S\<close> of the coordinates
  inserted since the last \<^verbatim>\<open>Reset\<close>. A node with children is a region with the blank
  point; its four children were allocated after it, carry the bounds of its four
  quadrants, and its bounds contain two different coordinates of \<open>S\<close>. A node without
  children is a leaf whose point is in its bounds and in \<open>S\<close>, or a region with the blank
  point. The root is node 0 with the full bounds, and the descent for every coordinate of
  \<open>S\<close> ends at a leaf that holds it.
\<close>

definition split_node :: "memory \<Rightarrow> nat \<Rightarrow> nat \<Rightarrow> bool" where
  "split_node mem k a =
     (\<exists>nw ne se sw.
        m_pNorthWest (mem a) = Some nw \<and> m_pNorthEast (mem a) = Some ne \<and>
        m_pSouthEast (mem a) = Some se \<and> m_pSouthWest (mem a) = Some sw \<and>
        a < nw \<and> nw < k \<and> a < ne \<and> ne < k \<and> a < se \<and> se < k \<and> a < sw \<and> sw < k \<and>
        SplitBounds (m_regionBounds (mem a)) =
          (m_regionBounds (mem nw), m_regionBounds (mem ne),
           m_regionBounds (mem se), m_regionBounds (mem sw)) \<and>
        m_nodeType (mem a) = Region \<and> m_point (mem a) = CCoordinate_default)"

definition node_ok :: "memory \<Rightarrow> nat \<Rightarrow> CCoordinate set \<Rightarrow> nat \<Rightarrow> bool" where
  "node_ok mem k S a =
     ((\<exists>j. cell j (m_regionBounds (mem a))) \<and>
      (if has_child (mem a)
       then split_node mem k a \<and>
            (\<exists>p q. p \<in> S \<and> q \<in> S \<and> p \<noteq> q \<and>
                   Contains (m_regionBounds (mem a)) p \<and> Contains (m_regionBounds (mem a)) q)
       else (m_nodeType (mem a) = Leaf \<and> Contains (m_regionBounds (mem a)) (m_point (mem a)) \<and>
             m_point (mem a) \<in> S) \<or>
            (m_nodeType (mem a) = Region \<and> m_point (mem a) = CCoordinate_default)))"

definition stored :: "memory \<Rightarrow> CCoordinate \<Rightarrow> nat \<Rightarrow> bool" where
  "stored mem p a = (\<exists>g. descent mem p a g \<and> m_nodeType (mem g) = Leaf \<and> m_point (mem g) = p)"

definition tree_ok :: "CQuadTree \<Rightarrow> nat \<Rightarrow> CCoordinate set \<Rightarrow> bool" where
  "tree_ok t k S =
     (pool_ok t k \<and> m_pTreeRoot t = Some 0 \<and> 0 < k \<and>
      m_regionBounds (nodes t 0) = full_bounds \<and>
      (\<forall>a<k. node_ok (nodes t) k S a) \<and> (\<forall>p\<in>S. stored (nodes t) p 0))"

text \<open>
  The last two assignments of \<^verbatim>\<open>Insert\<close> after its loop, and what the loop followed by
  them establishes when it starts at the node \<open>s\<close> of a pool with head \<open>k\<close>: the nodes in
  use before are unchanged but for the children, type and point of \<open>s\<close>; \<open>s\<close> and the new
  nodes satisfy the tree invariant for the two coordinates; both coordinates are stored
  below \<open>s\<close>.
\<close>

definition finish :: "CQuadTree \<Rightarrow> nat \<Rightarrow> nat \<Rightarrow> CCoordinate \<Rightarrow> CCoordinate \<Rightarrow> CQuadTree" where
  "finish t1 pE pS e pt =
     set_node (set_node t1 pE (\<lambda>n. n\<lparr>m_nodeType := Leaf, m_point := e\<rparr>))
       pS (\<lambda>n. n\<lparr>m_nodeType := Leaf, m_point := pt\<rparr>)"

definition loop_post ::
  "CQuadTree \<Rightarrow> nat \<Rightarrow> nat \<Rightarrow> CCoordinate \<Rightarrow> CCoordinate \<Rightarrow> CQuadTree \<Rightarrow> nat \<Rightarrow> bool" where
  "loop_post t k s e pt tf k' =
     (pool_ok tf k' \<and> m_pTreeRoot tf = m_pTreeRoot t \<and> m_pageSize tf = m_pageSize t \<and>
      (\<forall>a<k. a \<noteq> s \<longrightarrow> nodes tf a = nodes t a) \<and>
      m_regionBounds (nodes tf s) = m_regionBounds (nodes t s) \<and>
      (\<forall>a. a = s \<or> (k \<le> a \<and> a < k') \<longrightarrow> node_ok (nodes tf) k' {e, pt} a) \<and>
      stored (nodes tf) e s \<and> stored (nodes tf) pt s)"

text \<open>
  Two coordinates in one aligned two-by-two square, and a set that holds two different
  coordinates of one such square.
\<close>

definition same_quad :: "CCoordinate \<Rightarrow> CCoordinate \<Rightarrow> bool" where
  "same_quad p q = (c_x p div 2 = c_x q div 2 \<and> c_y p div 2 = c_y q div 2)"

definition crowded :: "CCoordinate set \<Rightarrow> bool" where
  "crowded S = (\<exists>p q. p \<in> S \<and> q \<in> S \<and> p \<noteq> q \<and> same_quad p q)"

section \<open>Arithmetic of the split\<close>

text \<open>One axis of the split: the centre of an interval with more than one element.\<close>

lemma split1:
  fixes mn mx :: "64 word"
  assumes "mn < mx"
  defines "c \<equiv> mn + (mx - mn) div 2"
  shows "mn \<le> c" "c < mx" "c < c + 1" "c + 1 \<le> mx"
    "unat c = unat mn + (unat mx - unat mn) div 2"
    "unat (c + 1) = unat c + 1"
proof -
  have le: "mn \<le> mx" using assms by simp
  have s: "unat (mx - mn) = unat mx - unat mn" using le by (simp add: unat_sub)
  have d: "unat ((mx - mn) div 2) = (unat mx - unat mn) div 2" by (simp add: unat_div s)
  have lt: "unat mn < unat mx" using assms(1) by (simp add: word_less_nat_alt)
  have b: "unat mx < 2 ^ 64" using unsigned_less[of mx] by simp
  have "unat mn + unat ((mx - mn) div 2) < 2 ^ LENGTH(64)" using d lt b by simp
  then have c: "unat c = unat mn + (unat mx - unat mn) div 2"
    unfolding c_def using d by (simp add: unat_add_lem[THEN iffD1])
  show "unat c = unat mn + (unat mx - unat mn) div 2" by (rule c)
  show "mn \<le> c" using c by (simp add: word_le_nat_alt)
  show clt: "c < mx" using c lt by (simp add: word_less_nat_alt)
  have "unat c + unat (1::64 word) < 2 ^ LENGTH(64)" using clt b by (simp add: word_less_nat_alt)
  then have c1: "unat (c + 1) = unat c + 1" by (simp add: unat_add_lem[THEN iffD1])
  show "unat (c + 1) = unat c + 1" by (rule c1)
  show "c < c + 1" using c1 by (simp add: word_less_nat_alt)
  show "c + 1 \<le> mx" using c1 clt by (simp add: word_le_nat_alt word_less_nat_alt)
qed

lemma below_or_above:
  fixes p c :: "64 word"
  shows "c < c + 1 \<Longrightarrow> (p \<le> c) = (\<not> c + 1 \<le> p)"
  by (metis inc_le leD linorder_le_less_linear order_le_less_trans)

lemma SplitBounds_eq:
  "SplitBounds (CBounds (CCoordinate x0 y0) (CCoordinate x1 y1)) =
     (CBounds (CCoordinate x0 y0) (CCoordinate (x0 + (x1 - x0) div 2) (y0 + (y1 - y0) div 2)),
      CBounds (CCoordinate (x0 + (x1 - x0) div 2 + 1) y0) (CCoordinate x1 (y0 + (y1 - y0) div 2)),
      CBounds (CCoordinate (x0 + (x1 - x0) div 2 + 1) (y0 + (y1 - y0) div 2 + 1)) (CCoordinate x1 y1),
      CBounds (CCoordinate x0 (y0 + (y1 - y0) div 2 + 1)) (CCoordinate (x0 + (x1 - x0) div 2) y1))"
  by (simp add: SplitBounds_def coord_add_def coord_sub_def coord_div_def Let_def)

lemma axis:
  fixes mn mx p :: "64 word"
  assumes "mn < mx"
  defines "c \<equiv> mn + (mx - mn) div 2"
  shows "(mn \<le> p \<and> p \<le> mx) = ((mn \<le> p \<and> p \<le> c) \<or> (c + 1 \<le> p \<and> p \<le> mx))"
    and "\<not> (p \<le> c \<and> c + 1 \<le> p)"
proof -
  note f = split1[OF assms(1), folded c_def]
  have a: "unat mn \<le> unat c" "unat c < unat mx" using f(1,2)
    by (simp_all add: word_le_nat_alt word_less_nat_alt)
  show "(mn \<le> p \<and> p \<le> mx) = ((mn \<le> p \<and> p \<le> c) \<or> (c + 1 \<le> p \<and> p \<le> mx))"
    using a f(6) unfolding word_le_nat_alt by auto
  show "\<not> (p \<le> c \<and> c + 1 \<le> p)"
    using f(6) unfolding word_le_nat_alt by auto
qed

lemma div_eq_iff_nat:
  fixes P m a :: nat
  assumes "0 < P"
  shows "(m * P \<le> a \<and> a + 1 \<le> m * P + P) = (a div P = m)"
proof
  assume "m * P \<le> a \<and> a + 1 \<le> m * P + P"
  then show "a div P = m" by (intro div_nat_eqI) (simp_all add: mult.commute)
next
  assume h: "a div P = m"
  have "a div P * P \<le> a" by simp
  moreover have "a < a div P * P + P" using assms
    by (metis add.commute dividend_less_div_times)
  ultimately show "m * P \<le> a \<and> a + 1 \<le> m * P + P" using h by simp
qed

lemma seg_split:
  assumes "seg (Suc j) lo hi"
  shows "lo < hi" "seg j lo (lo + (hi - lo) div 2)" "seg j (lo + (hi - lo) div 2 + 1) hi"
proof -
  define P :: nat where "P = 2 ^ j"
  have P: "0 < P" by (simp add: P_def)
  have h: "unat hi + 1 = unat lo + 2 * P" "2 * P dvd unat lo" "j < 64"
    using assms by (simp_all add: seg_def P_def)
  show lt: "lo < hi" using h P by (simp add: word_less_nat_alt)
  note f = split1[OF lt]
  have c: "unat (lo + (hi - lo) div 2) + 1 = unat lo + P"
    using f(5) h P by simp
  have d: "P dvd unat lo" using h(2) by (metis dvd_mult_right)
  show "seg j lo (lo + (hi - lo) div 2)"
    using c d h(3) by (simp add: seg_def P_def)
  show "seg j (lo + (hi - lo) div 2 + 1) hi"
    using c d h f(6) by (simp add: seg_def P_def)
qed

lemma seg_mem:
  assumes "seg j lo hi"
  shows "(lo \<le> p \<and> p \<le> hi) = (unat p div 2 ^ j = unat lo div 2 ^ j)"
proof -
  define P :: nat where "P = 2 ^ j"
  have P: "0 < P" by (simp add: P_def)
  obtain m where m: "unat lo = m * P" using assms unfolding seg_def P_def
    by (metis dvd_def mult.commute)
  have hi: "unat hi + 1 = m * P + P" using assms m by (simp add: seg_def P_def)
  have "(lo \<le> p \<and> p \<le> hi) = (m * P \<le> unat p \<and> unat p + 1 \<le> m * P + P)"
    using m hi by (auto simp: word_le_nat_alt)
  also have "\<dots> = (unat p div P = m)" by (rule div_eq_iff_nat[OF P])
  also have "\<dots> = (unat p div P = unat lo div P)" using m P by simp
  finally show ?thesis by (simp add: P_def)
qed

lemma seg_zero: "seg 0 lo hi \<Longrightarrow> lo \<le> p \<Longrightarrow> p \<le> hi \<Longrightarrow> p = lo"
  by (simp add: seg_def word_le_nat_alt word_unat_eq_iff)

lemma seg_deep:
  assumes "seg (Suc (Suc j)) lo hi"
  shows "lo < lo + (hi - lo) div 2" "lo + (hi - lo) div 2 + 1 < hi"
proof -
  define P :: nat where "P = 2 ^ j"
  have P: "0 < P" by (simp add: P_def)
  have h: "unat hi + 1 = unat lo + 4 * P"
    using assms by (simp_all add: seg_def P_def)
  have lt: "lo < hi" using h P by (simp add: word_less_nat_alt)
  note f = split1[OF lt]
  show "lo < lo + (hi - lo) div 2" using f(5) h P by (simp add: word_less_nat_alt)
  show "lo + (hi - lo) div 2 + 1 < hi" using f(5,6) h P by (simp add: word_less_nat_alt)
qed

lemma seg_one:
  assumes "seg (Suc 0) lo hi"
  shows "lo + (hi - lo) div 2 = lo" "lo + (hi - lo) div 2 + 1 = hi"
proof -
  have h: "unat hi + 1 = unat lo + 2" using assms by (simp add: seg_def)
  have lt: "lo < hi" using h by (simp add: word_less_nat_alt)
  note f = split1[OF lt]
  show "lo + (hi - lo) div 2 = lo" using f(5) h by (simp add: word_unat_eq_iff)
  show "lo + (hi - lo) div 2 + 1 = hi" using f(5,6) h by (simp add: word_unat_eq_iff)
qed

lemma seg_pair:
  assumes "seg (Suc 0) lo hi" "lo \<le> p" "p \<le> hi" "lo \<le> q" "q \<le> hi"
  shows "p div 2 = q div 2"
proof -
  have "unat p div 2 = unat q div 2"
    using seg_mem[OF assms(1), of p] seg_mem[OF assms(1), of q] assms(2-) by simp
  then show ?thesis by (simp add: word_unat_eq_iff unat_div)
qed

lemma seg_near:
  assumes "seg (Suc j) lo hi" "lo \<le> p" "p \<le> hi" "p div 2 = q div 2"
  shows "lo \<le> q \<and> q \<le> hi"
proof -
  have e: "unat p div 2 = unat q div 2" using assms(4) by (simp add: word_unat_eq_iff unat_div)
  have "unat p div 2 ^ Suc j = unat lo div 2 ^ Suc j"
    using seg_mem[OF assms(1), of p] assms(2,3) by simp
  then have "unat q div 2 ^ Suc j = unat lo div 2 ^ Suc j"
    using e by (simp add: div_mult2_eq)
  then show ?thesis using seg_mem[OF assms(1), of q] by simp
qed

lemma unat_max: "unat (- 1 :: 64 word) = 18446744073709551615"
  by (simp add: unsigned_minus_1_eq_mask mask_eq_exp_minus_1)

lemma cell_full: "cell 64 full_bounds"
  by (simp add: cell_def seg_def full_bounds_def unat_max)

lemma cell_split:
  assumes "cell (Suc j) b" "SplitBounds b = (b1, b2, b3, b4)"
  shows "cell j b1" "cell j b2" "cell j b3" "cell j b4"
proof -
  obtain x0 y0 x1 y1 where b: "b = CBounds (CCoordinate x0 y0) (CCoordinate x1 y1)"
    by (metis CBounds.exhaust CCoordinate.exhaust)
  have sx: "seg (Suc j) x0 x1" and sy: "seg (Suc j) y0 y1" using assms(1) by (simp_all add: cell_def b)
  show "cell j b1" "cell j b2" "cell j b3" "cell j b4"
    using assms(2) seg_split(2,3)[OF sx] seg_split(2,3)[OF sy]
    unfolding b SplitBounds_eq by (auto simp: cell_def)
qed

lemma cell_wide:
  assumes "cell (Suc j) b"
  shows "c_x (b_min b) < c_x (b_max b)" "c_y (b_min b) < c_y (b_max b)" "well_ordered b"
  using seg_split(1)[of j "c_x (b_min b)" "c_x (b_max b)"]
    seg_split(1)[of j "c_y (b_min b)" "c_y (b_max b)"] assms
  by (auto simp: cell_def well_ordered_def intro: order.strict_implies_order)

lemma cell_zero:
  assumes "cell 0 b" "Contains b p" "Contains b q"
  shows "p = q"
proof -
  have sx: "seg 0 (c_x (b_min b)) (c_x (b_max b))" and sy: "seg 0 (c_y (b_min b)) (c_y (b_max b))"
    using assms(1) by (simp_all add: cell_def)
  have "c_x p = c_x (b_min b)" "c_x q = c_x (b_min b)"
    using assms(2,3) seg_zero[OF sx] by (simp_all add: Contains_def)
  moreover have "c_y p = c_y (b_min b)" "c_y q = c_y (b_min b)"
    using assms(2,3) seg_zero[OF sy] by (simp_all add: Contains_def)
  ultimately show ?thesis by (simp add: CCoordinate.expand)
qed

lemma cell_Suc:
  assumes "cell j b" "Contains b p" "Contains b q" "p \<noteq> q"
  shows "\<exists>i. j = Suc i"
  using assms cell_zero by (cases j) auto

section \<open>The allocator under the pool invariant\<close>

lemma link_page_at:
  "link_page mem b l i a =
     (if b + i \<le> a \<and> a < b + l then (mem a)\<lparr>pPoolNext := Some (Suc a)\<rparr> else mem a)"
proof (induction mem b l i arbitrary: a rule: link_page.induct)
  case (1 mem pPages lastIndex i)
  show ?case
  proof (cases "i < lastIndex")
    case True
    have "link_page mem pPages lastIndex i a =
          link_page (mem(pPages + i := (mem (pPages + i))\<lparr>pPoolNext := Some (pPages + i + 1)\<rparr>))
             pPages lastIndex (i + 1) a"
      using True by (subst link_page.simps) simp
    also have "\<dots> = (if pPages + (i + 1) \<le> a \<and> a < pPages + lastIndex
       then ((mem(pPages + i := (mem (pPages + i))\<lparr>pPoolNext := Some (pPages + i + 1)\<rparr>)) a)
              \<lparr>pPoolNext := Some (Suc a)\<rparr>
       else (mem(pPages + i := (mem (pPages + i))\<lparr>pPoolNext := Some (pPages + i + 1)\<rparr>)) a)"
      by (rule 1[OF True])
    also have "\<dots> = (if pPages + i \<le> a \<and> a < pPages + lastIndex
       then (mem a)\<lparr>pPoolNext := Some (Suc a)\<rparr> else mem a)"
      using True by auto
    finally show ?thesis .
  next
    case False
    then show ?thesis by (subst link_page.simps) auto
  qed
qed

lemma AllocatePage_first:
  assumes "0 < ps"
  shows "AllocatePage \<lparr> m_pTreeRoot = r, m_pageSize = ps, m_pPoolHead = None,
                   m_pPoolRoot = None, m_pages = [], nodes = mem \<rparr> =
         Inr \<lparr> m_pTreeRoot = r, m_pageSize = ps, m_pPoolHead = Some 0,
                   m_pPoolRoot = Some 0, m_pages = [0],
                   nodes = (\<lambda>a. if a < ps then CNode_default\<lparr>pPoolNext := if Suc a < ps then Some (Suc a) else None\<rparr> else mem a) \<rparr>"
  using assms
  by (auto simp: AllocatePage_def Let_def new_page_def link_page_at fun_eq_iff CNode_default_def)

lemma AllocatePage_more:
  assumes "pool_ok t k" "Suc k = top t"
  shows "\<exists>t'. AllocatePage t = Inr t' \<and> pool_ok t' k \<and> top t' = top t + m_pageSize t \<and>
           (\<forall>a<k. nodes t' a = nodes t a) \<and>
           (\<forall>a. nodes t' a = nodes t a \<or> k \<le> a) \<and>
           m_pTreeRoot t' = m_pTreeRoot t \<and> m_pageSize t' = m_pageSize t"
  using assms
  unfolding pool_ok_def top_def AllocatePage_def Let_def
  by (auto simp: new_page_def link_page_at CNode_default_def)

lemma AllocateNode_ok:
  assumes "pool_ok t k"
  shows "\<exists>t'. AllocateNode t = Inr (t', k) \<and> pool_ok t' (Suc k) \<and>
           nodes t' k = CNode_default\<lparr>pPoolNext := Some (Suc k)\<rparr> \<and>
           (\<forall>a<k. nodes t' a = nodes t a) \<and>
           m_pTreeRoot t' = m_pTreeRoot t \<and> m_pageSize t' = m_pageSize t"
proof (cases "Suc k = top t")
  case True
  from AllocatePage_more[OF assms True] obtain t1 where
    t1: "AllocatePage t = Inr t1" "pool_ok t1 k" "top t1 = top t + m_pageSize t"
      "\<forall>a<k. nodes t1 a = nodes t a"
      "m_pTreeRoot t1 = m_pTreeRoot t" "m_pageSize t1 = m_pageSize t"
    by blast
  have np: "needs_page t" using assms True by (simp add: needs_page_def pool_ok_def)
  have big: "Suc (Suc k) < top t1" using assms t1(3) True by (simp add: pool_ok_def)
  show ?thesis
    using t1 np big unfolding AllocateNode_def pool_ok_def top_def
    by (auto simp: CNode_default_def)
next
  case False
  then have np: "\<not> needs_page t" using assms by (auto simp: needs_page_def pool_ok_def)
  show ?thesis
    using assms np False unfolding AllocateNode_def pool_ok_def top_def
    by (auto simp: CNode_default_def)
qed

lemma AllocateRegionNode_ok:
  assumes "pool_ok t k"
  shows "\<exists>t'. AllocateRegionNode t rb = Inr (t', k) \<and> pool_ok t' (Suc k) \<and>
           nodes t' k = region_node rb (Suc k) \<and>
           (\<forall>a<k. nodes t' a = nodes t a) \<and>
           m_pTreeRoot t' = m_pTreeRoot t \<and> m_pageSize t' = m_pageSize t"
proof -
  from AllocateNode_ok[OF assms] obtain t1 where
    t1: "AllocateNode t = Inr (t1, k)" "pool_ok t1 (Suc k)"
      "nodes t1 k = CNode_default\<lparr>pPoolNext := Some (Suc k)\<rparr>"
      "\<forall>a<k. nodes t1 a = nodes t a"
      "m_pTreeRoot t1 = m_pTreeRoot t" "m_pageSize t1 = m_pageSize t"
    by blast
  have init: "InitializeAsRegion (nodes t1 k) rb = Inr (region_node rb (Suc k))"
    by (simp add: InitializeAsRegion_def t1(3) region_node_def CNode_default_def coord_eq_def
        CCoordinate_default_def Let_def)
  have pk: "pool_ok (t1\<lparr>nodes := (nodes t1)(k := region_node rb (Suc k))\<rparr>) (Suc k)"
    using t1(2,3) unfolding pool_ok_def top_def
    by (auto simp: region_node_def CNode_default_def)
  show ?thesis
    using t1 init pk by (simp add: AllocateRegionNode_def)
qed

lemma pool_ok_set_node:
  assumes "pool_ok t k" "pPoolNext (f (nodes t a)) = pPoolNext (nodes t a)"
  shows "pool_ok (set_node t a f) k"
  using assms unfolding pool_ok_def top_def set_node_def by auto

lemma Split_ok:
  assumes pk: "pool_ok t k" and sk: "s < k" and nc: "\<not> has_child (nodes t s)"
    and sb: "SplitBounds (m_regionBounds (nodes t s)) = (b1, b2, b3, b4)"
  shows "\<exists>t'. Split s t = Inr t' \<and> pool_ok t' (k + 4) \<and>
           nodes t' s = (nodes t s)\<lparr>m_pNorthWest := Some k, m_pNorthEast := Some (k + 1),
                          m_pSouthEast := Some (k + 2), m_pSouthWest := Some (k + 3),
                          m_nodeType := Region, m_point := CCoordinate_default\<rparr> \<and>
           nodes t' k = region_node b1 (k + 1) \<and>
           nodes t' (k + 1) = region_node b2 (k + 2) \<and>
           nodes t' (k + 2) = region_node b3 (k + 3) \<and>
           nodes t' (k + 3) = region_node b4 (k + 4) \<and>
           (\<forall>a<k. a \<noteq> s \<longrightarrow> nodes t' a = nodes t a) \<and>
           m_pTreeRoot t' = m_pTreeRoot t \<and> m_pageSize t' = m_pageSize t"
proof -
  from AllocateRegionNode_ok[OF pk, of b1] obtain t1 where
    t1: "AllocateRegionNode t b1 = Inr (t1, k)" "pool_ok t1 (Suc k)"
      "nodes t1 k = region_node b1 (Suc k)" "\<forall>a<k. nodes t1 a = nodes t a"
      "m_pTreeRoot t1 = m_pTreeRoot t" "m_pageSize t1 = m_pageSize t"
    by blast
  define u1 where "u1 = set_node t1 s (\<lambda>n. n\<lparr>m_pNorthWest := Some k\<rparr>)"
  have pu1: "pool_ok u1 (Suc k)" unfolding u1_def by (rule pool_ok_set_node[OF t1(2)]) simp
  have nu1: "nodes u1 s = (nodes t s)\<lparr>m_pNorthWest := Some k\<rparr>"
    "nodes u1 k = region_node b1 (Suc k)"
    "\<forall>a<k. a \<noteq> s \<longrightarrow> nodes u1 a = nodes t a"
    "m_pTreeRoot u1 = m_pTreeRoot t" "m_pageSize u1 = m_pageSize t"
    using t1 sk by (auto simp: u1_def set_node_def)
  from AllocateRegionNode_ok[OF pu1, of b2] obtain t2 where
    t2: "AllocateRegionNode u1 b2 = Inr (t2, Suc k)" "pool_ok t2 (Suc (Suc k))"
      "nodes t2 (Suc k) = region_node b2 (Suc (Suc k))" "\<forall>a<Suc k. nodes t2 a = nodes u1 a"
      "m_pTreeRoot t2 = m_pTreeRoot u1" "m_pageSize t2 = m_pageSize u1"
    by blast
  define u2 where "u2 = set_node t2 s (\<lambda>n. n\<lparr>m_pNorthEast := Some (Suc k)\<rparr>)"
  have pu2: "pool_ok u2 (Suc (Suc k))" unfolding u2_def by (rule pool_ok_set_node[OF t2(2)]) simp
  have nu2: "nodes u2 s = (nodes t s)\<lparr>m_pNorthWest := Some k, m_pNorthEast := Some (Suc k)\<rparr>"
    "nodes u2 k = region_node b1 (Suc k)"
    "nodes u2 (Suc k) = region_node b2 (Suc (Suc k))"
    "\<forall>a<k. a \<noteq> s \<longrightarrow> nodes u2 a = nodes t a"
    "m_pTreeRoot u2 = m_pTreeRoot t" "m_pageSize u2 = m_pageSize t"
    using t2 nu1 sk by (auto simp: u2_def set_node_def)
  from AllocateRegionNode_ok[OF pu2, of b3] obtain t3 where
    t3: "AllocateRegionNode u2 b3 = Inr (t3, Suc (Suc k))" "pool_ok t3 (Suc (Suc (Suc k)))"
      "nodes t3 (Suc (Suc k)) = region_node b3 (Suc (Suc (Suc k)))"
      "\<forall>a<Suc (Suc k). nodes t3 a = nodes u2 a"
      "m_pTreeRoot t3 = m_pTreeRoot u2" "m_pageSize t3 = m_pageSize u2"
    by blast
  define u3 where "u3 = set_node t3 s (\<lambda>n. n\<lparr>m_pSouthEast := Some (Suc (Suc k))\<rparr>)"
  have pu3: "pool_ok u3 (Suc (Suc (Suc k)))"
    unfolding u3_def by (rule pool_ok_set_node[OF t3(2)]) simp
  have nu3: "nodes u3 s = (nodes t s)\<lparr>m_pNorthWest := Some k, m_pNorthEast := Some (Suc k),
                             m_pSouthEast := Some (Suc (Suc k))\<rparr>"
    "nodes u3 k = region_node b1 (Suc k)"
    "nodes u3 (Suc k) = region_node b2 (Suc (Suc k))"
    "nodes u3 (Suc (Suc k)) = region_node b3 (Suc (Suc (Suc k)))"
    "\<forall>a<k. a \<noteq> s \<longrightarrow> nodes u3 a = nodes t a"
    "m_pTreeRoot u3 = m_pTreeRoot t" "m_pageSize u3 = m_pageSize t"
    using t3 nu2 sk by (auto simp: u3_def set_node_def)
  from AllocateRegionNode_ok[OF pu3, of b4] obtain t4 where
    t4: "AllocateRegionNode u3 b4 = Inr (t4, Suc (Suc (Suc k)))"
      "pool_ok t4 (Suc (Suc (Suc (Suc k))))"
      "nodes t4 (Suc (Suc (Suc k))) = region_node b4 (Suc (Suc (Suc (Suc k))))"
      "\<forall>a<Suc (Suc (Suc k)). nodes t4 a = nodes u3 a"
      "m_pTreeRoot t4 = m_pTreeRoot u3" "m_pageSize t4 = m_pageSize u3"
    by blast
  define u4 where "u4 = set_node t4 s (\<lambda>n. n\<lparr>m_pSouthWest := Some (Suc (Suc (Suc k))),
                          m_nodeType := Region, m_point := CCoordinate_default\<rparr>)"
  have pu4: "pool_ok u4 (Suc (Suc (Suc (Suc k))))"
    unfolding u4_def by (rule pool_ok_set_node[OF t4(2)]) simp
  have nu4: "nodes u4 s = (nodes t s)\<lparr>m_pNorthWest := Some k, m_pNorthEast := Some (Suc k),
                             m_pSouthEast := Some (Suc (Suc k)),
                             m_pSouthWest := Some (Suc (Suc (Suc k))),
                             m_nodeType := Region, m_point := CCoordinate_default\<rparr>"
    "nodes u4 k = region_node b1 (Suc k)"
    "nodes u4 (Suc k) = region_node b2 (Suc (Suc k))"
    "nodes u4 (Suc (Suc k)) = region_node b3 (Suc (Suc (Suc k)))"
    "nodes u4 (Suc (Suc (Suc k))) = region_node b4 (Suc (Suc (Suc (Suc k))))"
    "\<forall>a<k. a \<noteq> s \<longrightarrow> nodes u4 a = nodes t a"
    "m_pTreeRoot u4 = m_pTreeRoot t" "m_pageSize u4 = m_pageSize t"
    using t4 nu3 sk by (auto simp: u4_def set_node_def)
  have run: "Split s t = Inr u4"
    using nc sb t1(1) t2(1) t3(1) t4(1)
    by (simp add: Split_def u1_def[symmetric] u2_def[symmetric] u3_def[symmetric]
        u4_def[symmetric])
  have e: "k + 4 = Suc (Suc (Suc (Suc k)))" "k + 3 = Suc (Suc (Suc k))" "k + 2 = Suc (Suc k)"
    "k + 1 = Suc k" by simp_all
  show ?thesis
    unfolding e using run pu4 nu4 by blast
qed

section \<open>Descent through the tree and the tree invariant\<close>

lemma Find_descent:
  "descent mem p a g \<Longrightarrow> CNode_Find mem a p = Some (Find_result (mem g) g p)"
proof (induction rule: descent.induct)
  case (stop a)
  then show ?case by (subst CNode_Find.simps) simp
next
  case (step a nw c g)
  then show ?case by (subst CNode_Find.simps) simp
qed

lemma descent_end: "descent mem p a g \<Longrightarrow> m_pNorthWest (mem g) = None"
  by (induction rule: descent.induct) auto

lemma descent_unique: "descent mem p a g \<Longrightarrow> descent mem p a g' \<Longrightarrow> g = g'"
proof (induction arbitrary: g' rule: descent.induct)
  case (stop a)
  from stop(2) stop(1) show ?case by (cases rule: descent.cases) auto
next
  case (step a nw c g)
  from step(5) step(1,2) have "descent mem p c g'" by (cases rule: descent.cases) auto
  then show ?case by (rule step(4))
qed

lemma choose_child_cases:
  assumes "choose_child mem n nw p = Inr c"
  shows "\<exists>ne se sw. m_pNorthEast n = Some ne \<and> m_pSouthEast n = Some se \<and>
           m_pSouthWest n = Some sw \<and> (c = nw \<or> c = ne \<or> c = se \<or> c = sw) \<and>
           Contains (m_regionBounds (mem c)) p"
  using assms unfolding choose_child_def
  by (auto split: option.splits if_splits)

lemma choose_child_same:
  assumes "m_pNorthEast n = Some ne" "m_pSouthEast n = Some se" "m_pSouthWest n = Some sw"
    and "m_regionBounds (mem' nw) = m_regionBounds (mem nw)"
    and "m_regionBounds (mem' ne) = m_regionBounds (mem ne)"
    and "m_regionBounds (mem' se) = m_regionBounds (mem se)"
    and "m_regionBounds (mem' sw) = m_regionBounds (mem sw)"
  shows "choose_child mem' n nw p = choose_child mem n nw p"
  using assms by (simp add: choose_child_def)

lemma has_child_split: "split_node mem k a \<Longrightarrow> has_child (mem a)"
  by (auto simp: split_node_def has_child_def)

lemma no_child_NW: "\<not> has_child n \<Longrightarrow> m_pNorthWest n = None"
  by (simp add: has_child_def)

lemma node_ok_NW:
  "node_ok mem k S a \<Longrightarrow> m_pNorthWest (mem a) = None \<Longrightarrow> \<not> has_child (mem a)"
  by (auto simp: node_ok_def split_node_def split: if_splits)

lemma Split_cover:
  assumes wide: "c_x (b_max rb) > c_x (b_min rb)" "c_y (b_max rb) > c_y (b_min rb)"
    and sp: "SplitBounds rb = (nw, ne, se, sw)"
  shows "Contains rb p = (Contains nw p \<or> Contains ne p \<or> Contains se p \<or> Contains sw p)"
proof -
  obtain x0 y0 x1 y1 where rb: "rb = CBounds (CCoordinate x0 y0) (CCoordinate x1 y1)"
    by (metis CBounds.exhaust CCoordinate.exhaust)
  define cx where "cx = x0 + (x1 - x0) div 2"
  define cy where "cy = y0 + (y1 - y0) div 2"
  have X: "x0 < x1" and Y: "y0 < y1" using wide by (simp_all add: rb)
  have ch: "nw = CBounds (CCoordinate x0 y0) (CCoordinate cx cy)"
    "ne = CBounds (CCoordinate (cx + 1) y0) (CCoordinate x1 cy)"
    "se = CBounds (CCoordinate (cx + 1) (cy + 1)) (CCoordinate x1 y1)"
    "sw = CBounds (CCoordinate x0 (cy + 1)) (CCoordinate cx y1)"
    using sp unfolding rb SplitBounds_eq cx_def cy_def by simp_all
  show ?thesis
    using axis(1)[OF X, of "c_x p", folded cx_def] axis(1)[OF Y, of "c_y p", folded cy_def]
    unfolding ch rb Contains_def by (simp only: CBounds.sel CCoordinate.sel) blast
qed

lemma Split_disjoint:
  assumes wide: "c_x (b_max rb) > c_x (b_min rb)" "c_y (b_max rb) > c_y (b_min rb)"
    and sp: "SplitBounds rb = (nw, ne, se, sw)"
  shows "\<not> (Contains nw p \<and> Contains ne p) \<and> \<not> (Contains nw p \<and> Contains se p) \<and>
         \<not> (Contains nw p \<and> Contains sw p) \<and> \<not> (Contains ne p \<and> Contains se p) \<and>
         \<not> (Contains ne p \<and> Contains sw p) \<and> \<not> (Contains se p \<and> Contains sw p)"
proof -
  obtain x0 y0 x1 y1 where rb: "rb = CBounds (CCoordinate x0 y0) (CCoordinate x1 y1)"
    by (metis CBounds.exhaust CCoordinate.exhaust)
  define cx where "cx = x0 + (x1 - x0) div 2"
  define cy where "cy = y0 + (y1 - y0) div 2"
  have X: "x0 < x1" and Y: "y0 < y1" using wide by (simp_all add: rb)
  have ch: "nw = CBounds (CCoordinate x0 y0) (CCoordinate cx cy)"
    "ne = CBounds (CCoordinate (cx + 1) y0) (CCoordinate x1 cy)"
    "se = CBounds (CCoordinate (cx + 1) (cy + 1)) (CCoordinate x1 y1)"
    "sw = CBounds (CCoordinate x0 (cy + 1)) (CCoordinate cx y1)"
    using sp unfolding rb SplitBounds_eq cx_def cy_def by simp_all
  show ?thesis
    using axis(2)[OF X, of "c_x p", folded cx_def] axis(2)[OF Y, of "c_y p", folded cy_def]
    unfolding ch Contains_def by (simp only: CBounds.sel CCoordinate.sel) blast
qed

lemma choose_ok:
  assumes sn: "split_node mem k a" and c: "cell (Suc j) (m_regionBounds (mem a))"
    and p: "Contains (m_regionBounds (mem a)) p" and nw: "m_pNorthWest (mem a) = Some nw"
  shows "\<exists>c. choose_child mem (mem a) nw p = Inr c \<and> a < c \<and> c < k \<and>
           Contains (m_regionBounds (mem c)) p \<and> cell j (m_regionBounds (mem c))"
proof -
  from sn nw obtain ne se sw where
    ch: "m_pNorthEast (mem a) = Some ne" "m_pSouthEast (mem a) = Some se"
      "m_pSouthWest (mem a) = Some sw"
    and lt: "a < nw" "nw < k" "a < ne" "ne < k" "a < se" "se < k" "a < sw" "sw < k"
    and sb: "SplitBounds (m_regionBounds (mem a)) =
          (m_regionBounds (mem nw), m_regionBounds (mem ne),
           m_regionBounds (mem se), m_regionBounds (mem sw))"
    by (auto simp: split_node_def)
  note w = cell_wide[OF c]
  note cs = cell_split[OF c sb]
  have cov: "Contains (m_regionBounds (mem nw)) p \<or> Contains (m_regionBounds (mem ne)) p \<or>
      Contains (m_regionBounds (mem se)) p \<or> Contains (m_regionBounds (mem sw)) p"
    using Split_cover[OF w(1,2) sb, of p] p by simp
  show ?thesis
    using cov ch lt cs by (auto simp: choose_child_def)
qed

lemma node_ok_level:
  assumes "node_ok mem k S a" "has_child (mem a)"
  shows "\<exists>j. cell (Suc j) (m_regionBounds (mem a))"
proof -
  from assms obtain j p q where j: "cell j (m_regionBounds (mem a))"
    and pq: "p \<noteq> q" "Contains (m_regionBounds (mem a)) p" "Contains (m_regionBounds (mem a)) q"
    by (auto simp: node_ok_def)
  from cell_Suc[OF j pq(2,3,1)] j show ?thesis by auto
qed

lemma descent_exists:
  assumes ok: "\<forall>a<k. node_ok mem k S a"
  shows "a < k \<Longrightarrow> Contains (m_regionBounds (mem a)) p \<Longrightarrow>
         \<exists>g. descent mem p a g \<and> a \<le> g \<and> g < k \<and> Contains (m_regionBounds (mem g)) p \<and>
              \<not> has_child (mem g)"
proof (induction "k - a" arbitrary: a rule: less_induct)
  case less
  show ?case
  proof (cases "has_child (mem a)")
    case True
    have nok: "node_ok mem k S a" using ok less.prems(1) by simp
    from node_ok_level[OF nok True] obtain j where j: "cell (Suc j) (m_regionBounds (mem a))" ..
    have sn: "split_node mem k a" using nok True by (simp add: node_ok_def)
    then obtain nw where nw: "m_pNorthWest (mem a) = Some nw" by (auto simp: split_node_def)
    from choose_ok[OF sn j less.prems(2) nw] obtain c where
      c: "choose_child mem (mem a) nw p = Inr c" "a < c" "c < k"
        "Contains (m_regionBounds (mem c)) p"
      by blast
    have "k - c < k - a" using c(2,3) by simp
    from less.hyps[OF this c(3,4)] obtain g where
      g: "descent mem p c g" "c \<le> g" "g < k" "Contains (m_regionBounds (mem g)) p"
        "\<not> has_child (mem g)"
      by blast
    have "descent mem p a g" using nw c(1) g(1) by (rule descent.step)
    then show ?thesis using g c(2) by auto
  next
    case False
    then have "descent mem p a a" by (intro descent.stop no_child_NW)
    then show ?thesis using False less.prems by auto
  qed
qed

lemma descent_frame:
  assumes d: "descent mem p a g"
    and ok: "\<forall>b<k. node_ok mem k S b"
    and a: "a < k"
    and f: "m_pNorthWest (mem f) = None"
    and same: "\<forall>b<k. b \<noteq> f \<longrightarrow> mem' b = mem b"
    and bnd: "\<forall>b<k. m_regionBounds (mem' b) = m_regionBounds (mem b)"
    and cont: "descent mem' p g g'"
  shows "descent mem' p a g'"
  using d a cont
proof (induction rule: descent.induct)
  case (stop a)
  then show ?case by simp
next
  case (step a nw c g)
  have af: "a \<noteq> f" using step(1) f by auto
  then have eq: "mem' a = mem a" using same step.prems(1) by simp
  have nok: "node_ok mem k S a" using ok step.prems(1) by simp
  have hc: "has_child (mem a)" using step(1) by (simp add: has_child_def)
  then have sn: "split_node mem k a" using nok by (simp add: node_ok_def)
  then obtain ne se sw where
    ch: "m_pNorthEast (mem a) = Some ne" "m_pSouthEast (mem a) = Some se"
      "m_pSouthWest (mem a) = Some sw"
    and lt: "nw < k" "ne < k" "se < k" "sw < k"
    using step(1) by (auto simp: split_node_def)
  have cc: "choose_child mem' (mem a) nw p = choose_child mem (mem a) nw p"
    using ch lt bnd by (intro choose_child_same) auto
  from choose_child_cases[OF step(2)] ch lt have ck: "c < k" by auto
  have d': "descent mem' p c g'" using step.IH[OF ck step.prems(2)] .
  have 1: "m_pNorthWest (mem' a) = Some nw" using step(1) by (simp only: eq)
  have 2: "choose_child mem' (mem' a) nw p = Inr c" using step(2) by (simp only: eq cc)
  show ?case by (rule descent.step[OF 1 2 d'])
qed

lemma stored_step:
  "m_pNorthWest (mem a) = Some nw \<Longrightarrow> choose_child mem (mem a) nw p = Inr c \<Longrightarrow>
   stored mem p c \<Longrightarrow> stored mem p a"
  unfolding stored_def by (blast intro: descent.step)

lemma stored_leaf:
  "m_pNorthWest (mem a) = None \<Longrightarrow> m_nodeType (mem a) = Leaf \<Longrightarrow> m_point (mem a) = p \<Longrightarrow>
   stored mem p a"
  unfolding stored_def by (blast intro: descent.stop)

lemma node_ok_region: "mem a = region_node b nx \<Longrightarrow> cell j b \<Longrightarrow> node_ok mem k S a"
  by (auto simp: node_ok_def region_node_def CNode_default_def has_child_def)

lemma node_ok_leaf:
  assumes "\<not> has_child (mem a)" "m_nodeType (mem a) = Leaf" "cell j (m_regionBounds (mem a))"
    "Contains (m_regionBounds (mem a)) (m_point (mem a))" "m_point (mem a) \<in> S"
  shows "node_ok mem k S a"
  using assms by (auto simp: node_ok_def)

lemma node_ok_mono:
  assumes "node_ok mem k S a" "k \<le> k'" "S \<subseteq> S'"
  shows "node_ok mem k' S' a"
proof -
  have sn: "split_node mem k a \<Longrightarrow> split_node mem k' a"
    using assms(2) unfolding split_node_def by (elim ex_forward) auto
  show ?thesis
    using assms(1,3) sn unfolding node_ok_def by (auto split: if_splits)
qed

lemma split_node_same:
  assumes "split_node mem k a" "mem' a = mem a"
    "\<forall>b<k. m_regionBounds (mem' b) = m_regionBounds (mem b)"
  shows "split_node mem' k a"
  using assms unfolding split_node_def by (elim ex_forward) auto

lemma node_ok_same:
  assumes "node_ok mem k S a" "mem' a = mem a"
    "\<forall>b<k. m_regionBounds (mem' b) = m_regionBounds (mem b)"
  shows "node_ok mem' k S a"
  using assms split_node_same[OF _ assms(2,3)] unfolding node_ok_def
  by (auto split: if_splits)

lemma ContainingSubRegion_split:
  assumes "m_pNorthWest (mem s) = Some nw" "m_nodeType (mem s) = Region"
    "Contains (m_regionBounds (mem s)) p" "choose_child mem (mem s) nw p = Inr c"
  shows "ContainingSubRegion mem s p = Inr (Some c)"
  using assms by (simp add: ContainingSubRegion_def)

lemma nodes_finish:
  "pE \<noteq> pS \<Longrightarrow> nodes (finish t1 pE pS e pt) a =
     (if a = pS then (nodes t1 pS)\<lparr>m_nodeType := Leaf, m_point := pt\<rparr>
      else if a = pE then (nodes t1 pE)\<lparr>m_nodeType := Leaf, m_point := e\<rparr>
      else nodes t1 a)"
  by (simp add: finish_def set_node_def)

lemma finish_fields:
  "m_pTreeRoot (finish t1 pE pS e pt) = m_pTreeRoot t1"
  "m_pageSize (finish t1 pE pS e pt) = m_pageSize t1"
  "m_regionBounds (nodes (finish t1 pE pS e pt) a) = m_regionBounds (nodes t1 a)"
  "m_pNorthWest (nodes (finish t1 pE pS e pt) a) = m_pNorthWest (nodes t1 a)"
  "has_child (nodes (finish t1 pE pS e pt) a) = has_child (nodes t1 a)"
  by (simp_all add: finish_def set_node_def has_child_def)

lemma pool_ok_finish: "pool_ok t1 k \<Longrightarrow> pool_ok (finish t1 pE pS e pt) k"
  unfolding finish_def by (intro pool_ok_set_node) (simp_all add: set_node_def)

lemma after_split:
  assumes s: "nodes tf s = (nodes t s)\<lparr>m_pNorthWest := Some k, m_pNorthEast := Some (k + 1),
                          m_pSouthEast := Some (k + 2), m_pSouthWest := Some (k + 3),
                          m_nodeType := Region, m_point := CCoordinate_default\<rparr>"
    and sb: "SplitBounds (m_regionBounds (nodes t s)) = (b1, b2, b3, b4)"
    and b: "m_regionBounds (nodes tf k) = b1" "m_regionBounds (nodes tf (k + 1)) = b2"
      "m_regionBounds (nodes tf (k + 2)) = b3" "m_regionBounds (nodes tf (k + 3)) = b4"
    and sk: "s < k" and kk: "k + 4 \<le> k'"
  shows "split_node (nodes tf) k' s" "m_pNorthWest (nodes tf s) = Some k"
    "m_nodeType (nodes tf s) = Region" "has_child (nodes tf s)"
    "m_regionBounds (nodes tf s) = m_regionBounds (nodes t s)"
proof -
  show "split_node (nodes tf) k' s"
    unfolding split_node_def
    apply (rule exI[of _ k], rule exI[of _ "k + 1"], rule exI[of _ "k + 2"], rule exI[of _ "k + 3"])
    using s sb b sk kk by simp
  show "m_pNorthWest (nodes tf s) = Some k" "m_nodeType (nodes tf s) = Region"
    "has_child (nodes tf s)" "m_regionBounds (nodes tf s) = m_regionBounds (nodes t s)"
    using s by (simp_all add: has_child_def)
qed

lemma choose_range:
  assumes "choose_child mem (mem s) k p = Inr c"
    "m_pNorthEast (mem s) = Some (k + 1)" "m_pSouthEast (mem s) = Some (k + 2)"
    "m_pSouthWest (mem s) = Some (k + 3)"
  shows "k \<le> c \<and> c < k + 4"
  using choose_child_cases[OF assms(1)] assms(2-) by auto

lemma loop_post_step:
  assumes ns: "nodes t1 s = (nodes t s)\<lparr>m_pNorthWest := Some k, m_pNorthEast := Some (k + 1),
                          m_pSouthEast := Some (k + 2), m_pSouthWest := Some (k + 3),
                          m_nodeType := Region, m_point := CCoordinate_default\<rparr>"
    and n0: "nodes t1 k = region_node b1 (k + 1)" "nodes t1 (k + 1) = region_node b2 (k + 2)"
      "nodes t1 (k + 2) = region_node b3 (k + 3)" "nodes t1 (k + 3) = region_node b4 (k + 4)"
    and fr: "\<forall>a<k. a \<noteq> s \<longrightarrow> nodes t1 a = nodes t a"
    and rt: "m_pTreeRoot t1 = m_pTreeRoot t" "m_pageSize t1 = m_pageSize t"
    and sb: "SplitBounds (m_regionBounds (nodes t s)) = (b1, b2, b3, b4)"
    and sk: "s < k"
    and cl: "cell (Suc j) (m_regionBounds (nodes t s))"
    and ce: "Contains (m_regionBounds (nodes t s)) e"
    and cp: "Contains (m_regionBounds (nodes t s)) pt"
    and ne: "e \<noteq> pt"
    and cE: "choose_child (nodes t1) (nodes t1 s) k e = Inr cE" "k \<le> cE"
    and cS: "choose_child (nodes t1) (nodes t1 s) k pt = Inr cS" "k \<le> cS"
    and pf: "pool_ok tf k'" "k + 4 \<le> k'"
    and rf: "m_pTreeRoot tf = m_pTreeRoot t1" "m_pageSize tf = m_pageSize t1"
    and same: "\<forall>a<k + 4. a \<noteq> cE \<longrightarrow> a \<noteq> cS \<longrightarrow> nodes tf a = nodes t1 a"
    and bnd: "\<forall>a<k + 4. m_regionBounds (nodes tf a) = m_regionBounds (nodes t1 a)"
    and oks: "\<forall>a. k \<le> a \<and> a < k' \<and> (a = cE \<or> a = cS \<or> k + 4 \<le> a) \<longrightarrow>
                node_ok (nodes tf) k' {e, pt} a"
    and st: "stored (nodes tf) e cE" "stored (nodes tf) pt cS"
  shows "loop_post t k s e pt tf k'"
proof -
  have sE: "s \<noteq> cE" "s \<noteq> cS" using sk cE(2) cS(2) by auto
  have ss: "nodes tf s = nodes t1 s" using same sk sE by simp
  have bb: "m_regionBounds (nodes tf k) = b1" "m_regionBounds (nodes tf (k + 1)) = b2"
      "m_regionBounds (nodes tf (k + 2)) = b3" "m_regionBounds (nodes tf (k + 3)) = b4"
    using bnd n0 by (simp_all add: region_node_def)
  note as = after_split[OF ss[unfolded ns] sb bb sk pf(2)]
  note cs = cell_split[OF cl sb]
  have old: "\<forall>a<k. a \<noteq> s \<longrightarrow> nodes tf a = nodes t a"
  proof (intro allI impI)
    fix a assume a: "a < k" "a \<noteq> s"
    then have "nodes tf a = nodes t1 a" using same cE(2) cS(2) by simp
    then show "nodes tf a = nodes t a" using fr a by simp
  qed
  have ch: "m_pNorthEast (nodes t1 s) = Some (k + 1)" "m_pSouthEast (nodes t1 s) = Some (k + 2)"
    "m_pSouthWest (nodes t1 s) = Some (k + 3)"
    using ns by simp_all
  have bk: "m_regionBounds (nodes tf k) = m_regionBounds (nodes t1 k)"
    "m_regionBounds (nodes tf (k + 1)) = m_regionBounds (nodes t1 (k + 1))"
    "m_regionBounds (nodes tf (k + 2)) = m_regionBounds (nodes t1 (k + 2))"
    "m_regionBounds (nodes tf (k + 3)) = m_regionBounds (nodes t1 (k + 3))"
    using bnd by simp_all
  have cc: "choose_child (nodes tf) (nodes tf s) k p = choose_child (nodes t1) (nodes t1 s) k p"
    for p
    unfolding ss by (rule choose_child_same[OF ch bk])
  have c1: "choose_child (nodes tf) (nodes tf s) k e = Inr cE"
    by (simp only: cc cE(1))
  have c2: "choose_child (nodes tf) (nodes tf s) k pt = Inr cS"
    by (simp only: cc cS(1))
  have stE: "stored (nodes tf) e s" by (rule stored_step[OF as(2) c1 st(1)])
  have stS: "stored (nodes tf) pt s" by (rule stored_step[OF as(2) c2 st(2)])
  have oks_s: "node_ok (nodes tf) k' {e, pt} s"
    unfolding node_ok_def using as cl ce cp ne by auto
  have rest: "node_ok (nodes tf) k' {e, pt} a"
    if a: "k \<le> a" "a < k + 4" "a \<noteq> cE" "a \<noteq> cS" for a
  proof -
    have eq: "nodes tf a = nodes t1 a" using same a by simp
    have "a = k \<or> a = k + 1 \<or> a = k + 2 \<or> a = k + 3" using a(1,2) by arith
    then obtain b nx where "nodes t1 a = region_node b nx" "cell j b"
      using n0 cs by auto
    then show ?thesis using eq by (intro node_ok_region[where b=b and nx=nx]) simp_all
  qed
  have all: "\<forall>a. a = s \<or> (k \<le> a \<and> a < k') \<longrightarrow> node_ok (nodes tf) k' {e, pt} a"
  proof (intro allI impI)
    fix a assume "a = s \<or> (k \<le> a \<and> a < k')"
    then consider "a = s" | "k \<le> a" "a < k'" "a = cE \<or> a = cS \<or> k + 4 \<le> a"
      | "k \<le> a" "a < k + 4" "a \<noteq> cE" "a \<noteq> cS"
      by fastforce
    then show "node_ok (nodes tf) k' {e, pt} a"
    proof cases
      case 1 then show ?thesis using oks_s by simp
    next
      case 2 then show ?thesis using oks by blast
    next
      case 3 then show ?thesis by (rule rest)
    qed
  qed
  show ?thesis
    unfolding loop_post_def using pf(1) rf rt old as(5) all stE stS by simp
qed

lemma Insert_loop_ok:
  assumes "pool_ok t k" "s < k" "\<not> has_child (nodes t s)"
    "cell j (m_regionBounds (nodes t s))"
    "Contains (m_regionBounds (nodes t s)) e" "Contains (m_regionBounds (nodes t s)) pt"
    "e \<noteq> pt"
  shows "\<exists>t' pE pS n. Insert_loop t s e pt i = Some (Inr (t', pE, pS, i + n)) \<and>
           1 \<le> n \<and> n \<le> j \<and> pE \<noteq> pS \<and>
           Contains (m_regionBounds (nodes t' pE)) e \<and>
           Contains (m_regionBounds (nodes t' pS)) pt \<and>
           loop_post t k s e pt (finish t' pE pS e pt) (k + 4 * n)"
  using assms
proof (induction j arbitrary: t k s i)
  case 0
  then show ?case using cell_zero by blast
next
  case (Suc j)
  note pk = Suc.prems(1) and sk = Suc.prems(2) and nc = Suc.prems(3) and cl = Suc.prems(4)
    and ce = Suc.prems(5) and cp = Suc.prems(6) and ne = Suc.prems(7)
  obtain b1 b2 b3 b4 where sb: "SplitBounds (m_regionBounds (nodes t s)) = (b1, b2, b3, b4)"
    by (metis prod_cases4)
  from Split_ok[OF pk sk nc sb] obtain t1 where
    run: "Split s t = Inr t1" and pk1: "pool_ok t1 (k + 4)"
    and ns: "nodes t1 s = (nodes t s)\<lparr>m_pNorthWest := Some k, m_pNorthEast := Some (k + 1),
                          m_pSouthEast := Some (k + 2), m_pSouthWest := Some (k + 3),
                          m_nodeType := Region, m_point := CCoordinate_default\<rparr>"
    and n0: "nodes t1 k = region_node b1 (k + 1)" "nodes t1 (k + 1) = region_node b2 (k + 2)"
      "nodes t1 (k + 2) = region_node b3 (k + 3)" "nodes t1 (k + 3) = region_node b4 (k + 4)"
    and fr: "\<forall>a<k. a \<noteq> s \<longrightarrow> nodes t1 a = nodes t a"
    and rt: "m_pTreeRoot t1 = m_pTreeRoot t" "m_pageSize t1 = m_pageSize t"
    by blast
  have bb: "m_regionBounds (nodes t1 k) = b1" "m_regionBounds (nodes t1 (k + 1)) = b2"
      "m_regionBounds (nodes t1 (k + 2)) = b3" "m_regionBounds (nodes t1 (k + 3)) = b4"
    using n0 by (simp_all add: region_node_def)
  note as1 = after_split[OF ns sb bb sk order_refl]
  have cl1: "cell (Suc j) (m_regionBounds (nodes t1 s))" using cl by (simp only: as1(5))
  have ce1: "Contains (m_regionBounds (nodes t1 s)) e" using ce by (simp only: as1(5))
  have cp1: "Contains (m_regionBounds (nodes t1 s)) pt" using cp by (simp only: as1(5))
  have ch: "m_pNorthEast (nodes t1 s) = Some (k + 1)" "m_pSouthEast (nodes t1 s) = Some (k + 2)"
    "m_pSouthWest (nodes t1 s) = Some (k + 3)"
    using ns by simp_all
  from choose_ok[OF as1(1) cl1 ce1 as1(2)] obtain cE where
    cE: "choose_child (nodes t1) (nodes t1 s) k e = Inr cE" "cE < k + 4"
      "Contains (m_regionBounds (nodes t1 cE)) e" "cell j (m_regionBounds (nodes t1 cE))"
    by blast
  from choose_ok[OF as1(1) cl1 cp1 as1(2)] obtain cS where
    cS: "choose_child (nodes t1) (nodes t1 s) k pt = Inr cS" "cS < k + 4"
      "Contains (m_regionBounds (nodes t1 cS)) pt" "cell j (m_regionBounds (nodes t1 cS))"
    by blast
  have rE: "k \<le> cE" using choose_range[OF cE(1) ch] by simp
  have rS: "k \<le> cS" using choose_range[OF cS(1) ch] by simp
  have csrE: "ContainingSubRegion (nodes t1) s e = Inr (Some cE)"
    by (rule ContainingSubRegion_split[OF as1(2,3) ce1 cE(1)])
  have csrS: "ContainingSubRegion (nodes t1) s pt = Inr (Some cS)"
    by (rule ContainingSubRegion_split[OF as1(2,3) cp1 cS(1)])
  have unf: "Insert_loop t s e pt i =
      (if cE = cS then Insert_loop t1 cS e pt (i + 1) else Some (Inr (t1, cE, cS, i + 1)))"
    by (subst Insert_loop.simps) (simp add: run csrE csrS)
  have reg: "\<exists>b nx. nodes t1 c = region_node b nx" if "k \<le> c" "c < k + 4" for c
  proof -
    have "c = k \<or> c = k + 1 \<or> c = k + 2 \<or> c = k + 3" using that by arith
    then show ?thesis using n0 by auto
  qed
  have blank: "\<not> has_child (nodes t1 c) \<and> m_pNorthWest (nodes t1 c) = None"
    if "k \<le> c" "c < k + 4" for c
    using reg[OF that] by (auto simp: region_node_def CNode_default_def has_child_def)
  show ?case
  proof (cases "cE = cS")
    case False
    define tf where "tf = finish t1 cE cS e pt"
    have nf: "nodes tf a =
      (if a = cS then (nodes t1 cS)\<lparr>m_nodeType := Leaf, m_point := pt\<rparr>
       else if a = cE then (nodes t1 cE)\<lparr>m_nodeType := Leaf, m_point := e\<rparr>
       else nodes t1 a)" for a
      unfolding tf_def by (rule nodes_finish[OF False])
    have pf: "pool_ok tf (k + 4)" unfolding tf_def by (rule pool_ok_finish[OF pk1])
    have rf: "m_pTreeRoot tf = m_pTreeRoot t1" "m_pageSize tf = m_pageSize t1"
      unfolding tf_def by (simp_all add: finish_fields)
    have same: "\<forall>a<k + 4. a \<noteq> cE \<longrightarrow> a \<noteq> cS \<longrightarrow> nodes tf a = nodes t1 a"
      by (simp add: nf)
    have bnd: "\<forall>a<k + 4. m_regionBounds (nodes tf a) = m_regionBounds (nodes t1 a)"
      unfolding tf_def by (simp add: finish_fields)
    have okE: "node_ok (nodes tf) (k + 4) {e, pt} cE"
      using False cE(3,4) blank[OF rE cE(2)]
      by (intro node_ok_leaf[where j=j]) (simp_all add: nf has_child_def)
    have okS: "node_ok (nodes tf) (k + 4) {e, pt} cS"
      using False cS(3,4) blank[OF rS cS(2)]
      by (intro node_ok_leaf[where j=j]) (simp_all add: nf has_child_def)
    have oks: "\<forall>a. k \<le> a \<and> a < k + 4 \<and> (a = cE \<or> a = cS \<or> k + 4 \<le> a) \<longrightarrow>
                node_ok (nodes tf) (k + 4) {e, pt} a"
      using okE okS by auto
    have stE: "stored (nodes tf) e cE"
      using False blank[OF rE cE(2)] by (intro stored_leaf) (simp_all add: nf)
    have stS: "stored (nodes tf) pt cS"
      using False blank[OF rS cS(2)] by (intro stored_leaf) (simp_all add: nf)
    have post: "loop_post t k s e pt tf (k + 4)"
      by (rule loop_post_step[OF ns n0 fr rt sb sk cl ce cp ne cE(1) rE cS(1) rS pf order_refl
            rf same bnd oks stE stS])
    have res: "Insert_loop t s e pt i = Some (Inr (t1, cE, cS, i + 1))"
      using unf False by simp
    show ?thesis
      apply (rule exI[of _ t1], rule exI[of _ cE], rule exI[of _ cS], rule exI[of _ 1])
      using res False cE(3) cS(3) post by (simp add: tf_def)
  next
    case True
    have b1: "\<not> has_child (nodes t1 cS)" using blank[OF rS cS(2)] by simp
    have ceS: "Contains (m_regionBounds (nodes t1 cS)) e" using cE(3) True by simp
    from Suc.IH[OF pk1 cS(2) b1 cS(4) ceS cS(3) ne, of "i + 1"]
    obtain t' pE pS n where
      res': "Insert_loop t1 cS e pt (i + 1) = Some (Inr (t', pE, pS, i + 1 + n))"
      and n: "1 \<le> n" "n \<le> j" and d: "pE \<noteq> pS"
      and cc: "Contains (m_regionBounds (nodes t' pE)) e"
        "Contains (m_regionBounds (nodes t' pS)) pt"
      and post': "loop_post t1 (k + 4) cS e pt (finish t' pE pS e pt) (k + 4 + 4 * n)"
      by blast
    define tf where "tf = finish t' pE pS e pt"
    note p' = post'[folded tf_def, unfolded loop_post_def]
    have pf: "pool_ok tf (k + 4 + 4 * n)" using p' by simp
    have rf: "m_pTreeRoot tf = m_pTreeRoot t1" "m_pageSize tf = m_pageSize t1"
      using p' by simp_all
    have same: "\<forall>a<k + 4. a \<noteq> cE \<longrightarrow> a \<noteq> cS \<longrightarrow> nodes tf a = nodes t1 a"
      using p' by simp
    have bnd: "\<forall>a<k + 4. m_regionBounds (nodes tf a) = m_regionBounds (nodes t1 a)"
    proof (intro allI impI)
      fix a assume "a < k + 4"
      then show "m_regionBounds (nodes tf a) = m_regionBounds (nodes t1 a)"
        using p' by (cases "a = cS") simp_all
    qed
    have oks: "\<forall>a. k \<le> a \<and> a < k + 4 + 4 * n \<and> (a = cE \<or> a = cS \<or> k + 4 \<le> a) \<longrightarrow>
                node_ok (nodes tf) (k + 4 + 4 * n) {e, pt} a"
      using p' True by auto
    have stE: "stored (nodes tf) e cE" using p' True by simp
    have stS: "stored (nodes tf) pt cS" using p' by simp
    have le: "k + 4 \<le> k + 4 + 4 * n" by simp
    have post: "loop_post t k s e pt tf (k + 4 + 4 * n)"
      by (rule loop_post_step[OF ns n0 fr rt sb sk cl ce cp ne cE(1) rE cS(1) rS pf le
            rf same bnd oks stE stS])
    have res: "Insert_loop t s e pt i = Some (Inr (t', pE, pS, i + (n + 1)))"
      using unf True res' by (simp add: add.assoc add.commute)
    have k': "k + 4 * (n + 1) = k + 4 + 4 * n" by simp
    show ?thesis
      apply (rule exI[of _ t'], rule exI[of _ pE], rule exI[of _ pS], rule exI[of _ "n + 1"])
      using res n d cc post unfolding k' tf_def by simp
  qed
qed

lemma Contains_full: "Contains full_bounds p"
  by (simp add: Contains_def full_bounds_def)

lemma descent_bound:
  assumes "descent mem p a g" "\<forall>b<k. node_ok mem k S b" "a < k"
  shows "g < k"
  using assms(1,3)
proof (induction rule: descent.induct)
  case (stop a)
  then show ?case by simp
next
  case (step a nw c g)
  have nok: "node_ok mem k S a" using assms(2) step.prems by simp
  have hc: "has_child (mem a)" using step(1) by (simp add: has_child_def)
  then have sn: "split_node mem k a" using nok by (simp add: node_ok_def)
  have "c < k" using choose_child_cases[OF step(2)] sn step(1) by (auto simp: split_node_def)
  then show ?case by (rule step.IH)
qed

lemma stored_frame:
  assumes ok: "\<forall>b<k. node_ok mem k S b" and a: "a < k"
    and f: "m_pNorthWest (mem f) = None"
    and same: "\<forall>b<k. b \<noteq> f \<longrightarrow> mem' b = mem b"
    and bnd: "\<forall>b<k. m_regionBounds (mem' b) = m_regionBounds (mem b)"
    and st: "stored mem q a"
    and at_f: "descent mem q a f \<Longrightarrow> stored mem' q f"
  shows "stored mem' q a"
proof -
  from st obtain h where h: "descent mem q a h" "m_nodeType (mem h) = Leaf" "m_point (mem h) = q"
    by (auto simp: stored_def)
  show ?thesis
  proof (cases "h = f")
    case True
    with at_f h(1) obtain g where g: "descent mem' q f g" "m_nodeType (mem' g) = Leaf"
      "m_point (mem' g) = q"
      by (auto simp: stored_def)
    have "descent mem' q a g"
      using descent_frame[OF h(1) ok a f same bnd] g(1) True by simp
    then show ?thesis using g by (auto simp: stored_def)
  next
    case False
    have hk: "h < k" by (rule descent_bound[OF h(1) ok a])
    then have eq: "mem' h = mem h" using same False by simp
    have "m_pNorthWest (mem' h) = None" using descent_end[OF h(1)] eq by simp
    then have "descent mem' q h h" by (rule descent.stop)
    then have "descent mem' q a h" by (rule descent_frame[OF h(1) ok a f same bnd])
    then show ?thesis using h eq by (auto simp: stored_def)
  qed
qed

text \<open>What \<open>CNode_Find\<close> returns from the root of a well-formed tree.\<close>

lemma find_terminal:
  assumes "tree_ok t k S"
  shows "\<exists>g. descent (nodes t) p 0 g \<and> g < k \<and> Contains (m_regionBounds (nodes t g)) p \<and>
           \<not> has_child (nodes t g) \<and> node_ok (nodes t) k S g \<and>
           CNode_Find (nodes t) 0 p = Some (Find_result (nodes t g) g p) \<and>
           (p \<in> S \<longrightarrow> m_nodeType (nodes t g) = Leaf \<and> m_point (nodes t g) = p)"
proof -
  have ok: "\<forall>a<k. node_ok (nodes t) k S a" and k0: "0 < k"
    and fb: "m_regionBounds (nodes t 0) = full_bounds"
    and st: "\<forall>q\<in>S. stored (nodes t) q 0"
    using assms by (simp_all add: tree_ok_def)
  have c0: "Contains (m_regionBounds (nodes t 0)) p" by (simp only: fb Contains_full)
  from descent_exists[OF ok k0 c0] obtain g where
    g: "descent (nodes t) p 0 g" "g < k" "Contains (m_regionBounds (nodes t g)) p"
      "\<not> has_child (nodes t g)"
    by blast
  have nok: "node_ok (nodes t) k S g" using ok g(2) by simp
  have fd: "CNode_Find (nodes t) 0 p = Some (Find_result (nodes t g) g p)"
    by (rule Find_descent[OF g(1)])
  have "m_nodeType (nodes t g) = Leaf \<and> m_point (nodes t g) = p" if "p \<in> S"
  proof -
    from st that obtain h where h: "descent (nodes t) p 0 h" "m_nodeType (nodes t h) = Leaf"
      "m_point (nodes t h) = p"
      by (auto simp: stored_def)
    have "g = h" by (rule descent_unique[OF g(1) h(1)])
    then show ?thesis using h by simp
  qed
  then show ?thesis using g nok fd by blast
qed

lemma tree_ok_update:
  assumes tk: "tree_ok t k S"
    and g: "g < k" "\<not> has_child (nodes t g)"
    and pf: "pool_ok tf k'" "k \<le> k'" "m_pTreeRoot tf = m_pTreeRoot t"
    and same: "\<forall>a<k. a \<noteq> g \<longrightarrow> nodes tf a = nodes t a"
    and bg: "m_regionBounds (nodes tf g) = m_regionBounds (nodes t g)"
    and oks: "\<forall>a. a = g \<or> (k \<le> a \<and> a < k') \<longrightarrow> node_ok (nodes tf) k' S' a"
    and sub: "S \<subseteq> S'"
    and stf: "\<forall>q\<in>S'. descent (nodes t) q 0 g \<longrightarrow> stored (nodes tf) q g"
    and new: "\<forall>q\<in>S'. q \<notin> S \<longrightarrow> descent (nodes t) q 0 g"
  shows "tree_ok tf k' S'"
proof -
  have ok: "\<forall>a<k. node_ok (nodes t) k S a" and k0: "0 < k"
    and fb: "m_regionBounds (nodes t 0) = full_bounds"
    and st: "\<forall>q\<in>S. stored (nodes t) q 0"
    and rt: "m_pTreeRoot t = Some 0"
    using tk by (simp_all add: tree_ok_def)
  have nwg: "m_pNorthWest (nodes t g) = None" using g(2) by (rule no_child_NW)
  have bnd: "\<forall>b<k. m_regionBounds (nodes tf b) = m_regionBounds (nodes t b)"
  proof (intro allI impI)
    fix b assume "b < k"
    then show "m_regionBounds (nodes tf b) = m_regionBounds (nodes t b)"
      using same bg by (cases "b = g") simp_all
  qed
  have fb': "m_regionBounds (nodes tf 0) = full_bounds" using bnd k0 fb by simp
  have nodes_ok: "\<forall>a<k'. node_ok (nodes tf) k' S' a"
  proof (intro allI impI)
    fix a assume a: "a < k'"
    show "node_ok (nodes tf) k' S' a"
    proof (cases "a = g \<or> k \<le> a")
      case True
      then show ?thesis using oks a by auto
    next
      case False
      then have ak: "a < k" "a \<noteq> g" by auto
      have n1: "node_ok (nodes t) k S a" using ok ak by blast
      have e: "nodes tf a = nodes t a" using same ak by blast
      have "node_ok (nodes tf) k S a" by (rule node_ok_same[OF n1 e bnd])
      then show ?thesis using pf(2) sub by (rule node_ok_mono)
    qed
  qed
  have stored_all: "\<forall>q\<in>S'. stored (nodes tf) q 0"
  proof
    fix q assume q: "q \<in> S'"
    show "stored (nodes tf) q 0"
    proof (cases "q \<in> S")
      case True
      then have sq: "stored (nodes t) q 0" using st by blast
      have "descent (nodes t) q 0 g \<Longrightarrow> stored (nodes tf) q g" using stf q by blast
      then show ?thesis by (rule stored_frame[OF ok k0 nwg same bnd sq])
    next
      case False
      then have d: "descent (nodes t) q 0 g" using new q by blast
      then have "stored (nodes tf) q g" using stf q by blast
      then obtain h where h: "descent (nodes tf) q g h" "m_nodeType (nodes tf h) = Leaf"
        "m_point (nodes tf h) = q"
        by (auto simp: stored_def)
      have "descent (nodes tf) q 0 h" by (rule descent_frame[OF d ok k0 nwg same bnd h(1)])
      then show ?thesis using h by (auto simp: stored_def)
    qed
  qed
  have k0': "0 < k'" using k0 pf(2) by simp
  show ?thesis
    unfolding tree_ok_def using pf(1,3) rt k0' fb' nodes_ok stored_all by simp
qed

lemma Insert_duplicate:
  assumes tk: "tree_ok t k S" and p: "p \<in> S"
  shows "Insert t p = Some (Inr (t, Insert_DuplicateEntry))"
proof -
  from find_terminal[OF tk, of p] p obtain g where
    fd: "CNode_Find (nodes t) 0 p = Some (Find_result (nodes t g) g p)"
    and lf: "m_nodeType (nodes t g) = Leaf" "m_point (nodes t g) = p"
    by blast
  have fr: "Find_result (nodes t g) g p = Inr (Find_Success, g)"
    using lf by (simp add: Find_result_def coord_eq_def)
  have rt: "m_pTreeRoot t = Some 0" "m_regionBounds (nodes t 0) = full_bounds"
    using tk by (simp_all add: tree_ok_def)
  show ?thesis
    using lf by (simp add: Insert_def rt Contains_full fd fr coord_eq_def)
qed

lemma Insert_into_region:
  assumes tk: "tree_ok t k S" and p: "p \<notin> S"
    and g: "descent (nodes t) p 0 g" "m_nodeType (nodes t g) = Region"
  shows "\<exists>t'. Insert t p = Some (Inr (t', Insert_Success)) \<and> tree_ok t' k (insert p S) \<and>
           m_pageSize t' = m_pageSize t"
proof -
  from find_terminal[OF tk, of p] obtain g' where
    g': "descent (nodes t) p 0 g'" "g' < k" "Contains (m_regionBounds (nodes t g')) p"
      "\<not> has_child (nodes t g')" "node_ok (nodes t) k S g'"
      "CNode_Find (nodes t) 0 p = Some (Find_result (nodes t g') g' p)"
    by blast
  have gg: "g' = g" by (rule descent_unique[OF g'(1) g(1)])
  note gf = g'(2-)[unfolded gg]
  define tf where "tf = set_node t g (\<lambda>n. n\<lparr>m_nodeType := Leaf, m_point := p\<rparr>)"
  have fr: "Find_result (nodes t g) g p = Inr (Find_NoEntry, g)"
    using g(2) by (simp add: Find_result_def)
  have rt: "m_pTreeRoot t = Some 0" "m_regionBounds (nodes t 0) = full_bounds" "pool_ok t k"
    using tk by (simp_all add: tree_ok_def)
  have run: "Insert t p = Some (Inr (tf, Insert_Success))"
    using g(2) by (simp add: Insert_def rt Contains_full gf(5) fr tf_def)
  have nf: "nodes tf a = (if a = g then (nodes t g)\<lparr>m_nodeType := Leaf, m_point := p\<rparr>
                          else nodes t a)" for a
    by (simp add: tf_def set_node_def)
  obtain j where j: "cell j (m_regionBounds (nodes t g))" using gf(4) by (auto simp: node_ok_def)
  have okg: "node_ok (nodes tf) k (insert p S) g"
    using gf(2,3) j by (intro node_ok_leaf[where j=j]) (simp_all add: nf has_child_def)
  have pf: "pool_ok tf k" unfolding tf_def by (rule pool_ok_set_node[OF rt(3)]) simp
  have stg: "stored (nodes tf) p g"
    using gf(3) by (intro stored_leaf) (simp_all add: nf has_child_def)
  have stf: "\<forall>q\<in>insert p S. descent (nodes t) q 0 g \<longrightarrow> stored (nodes tf) q g"
  proof (intro ballI impI)
    fix q assume q: "q \<in> insert p S" "descent (nodes t) q 0 g"
    show "stored (nodes tf) q g"
    proof (cases "q = p")
      case True then show ?thesis using stg by simp
    next
      case False
      then have "q \<in> S" using q(1) by simp
      with find_terminal[OF tk, of q] obtain h where
        h: "descent (nodes t) q 0 h" "m_nodeType (nodes t h) = Leaf" by blast
      have "h = g" by (rule descent_unique[OF h(1) q(2)])
      then show ?thesis using h(2) g(2) by simp
    qed
  qed
  have "tree_ok tf k (insert p S)"
    using g(1) okg
    by (intro tree_ok_update[OF tk gf(1,3) pf order_refl _ _ _ _ _ stf])
      (auto simp: nf tf_def set_node_def)
  then show ?thesis using run by (auto simp: tf_def set_node_def)
qed

lemma coord_eq_iff: "coord_eq a b = (a = b)"
  by (cases a; cases b) (simp add: coord_eq_def)

lemma Insert_into_leaf:
  assumes tk: "tree_ok t k S" and p: "p \<notin> S"
    and g: "descent (nodes t) p 0 g" "m_nodeType (nodes t g) = Leaf"
  shows "\<exists>t' n. Insert t p = Some (Inr (t', Insert_Success)) \<and>
           tree_ok t' (k + 4 * n) (insert p S) \<and> m_pageSize t' = m_pageSize t"
proof -
  from find_terminal[OF tk, of p] obtain g' where
    g': "descent (nodes t) p 0 g'" "g' < k" "Contains (m_regionBounds (nodes t g')) p"
      "\<not> has_child (nodes t g')" "node_ok (nodes t) k S g'"
      "CNode_Find (nodes t) 0 p = Some (Find_result (nodes t g') g' p)"
    by blast
  have gg: "g' = g" by (rule descent_unique[OF g'(1) g(1)])
  note gf = g'(2-)[unfolded gg]
  define e where "e = m_point (nodes t g)"
  have eS: "e \<in> S" and ce: "Contains (m_regionBounds (nodes t g)) e"
    using gf(4) gf(3) g(2) by (auto simp: node_ok_def e_def)
  have ne: "e \<noteq> p" using eS p by auto
  obtain j where j: "cell j (m_regionBounds (nodes t g))" using gf(4) by (auto simp: node_ok_def)
  have rt: "m_pTreeRoot t = Some 0" "m_regionBounds (nodes t 0) = full_bounds" "pool_ok t k"
    using tk by (simp_all add: tree_ok_def)
  from Insert_loop_ok[OF rt(3) gf(1) gf(3) j ce gf(2) ne, of 0] obtain t' pE pS n where
    res: "Insert_loop t g e p 0 = Some (Inr (t', pE, pS, 0 + n))"
    and post: "loop_post t k g e p (finish t' pE pS e p) (k + 4 * n)"
    by blast
  define tf where "tf = finish t' pE pS e p"
  note pp = post[folded tf_def, unfolded loop_post_def]
  have fr: "Find_result (nodes t g) g p = Inr (Find_NoEntry, g)"
    using g(2) ne by (simp add: Find_result_def coord_eq_iff e_def)
  have run: "Insert t p = Some (Inr (tf, Insert_Success))"
    using g(2) gf(3) res
    by (simp add: Insert_def rt Contains_full gf(5) fr tf_def finish_def e_def)
  have pf: "pool_ok tf (k + 4 * n)" "m_pTreeRoot tf = m_pTreeRoot t"
    "m_pageSize tf = m_pageSize t"
    "\<forall>a<k. a \<noteq> g \<longrightarrow> nodes tf a = nodes t a"
    "m_regionBounds (nodes tf g) = m_regionBounds (nodes t g)"
    "stored (nodes tf) e g" "stored (nodes tf) p g"
    using pp by simp_all
  have sub: "{e, p} \<subseteq> insert p S" using eS by simp
  have oks: "\<forall>a. a = g \<or> (k \<le> a \<and> a < k + 4 * n) \<longrightarrow>
               node_ok (nodes tf) (k + 4 * n) (insert p S) a"
  proof (intro allI impI)
    fix a assume "a = g \<or> (k \<le> a \<and> a < k + 4 * n)"
    then have "node_ok (nodes tf) (k + 4 * n) {e, p} a" using pp by blast
    then show "node_ok (nodes tf) (k + 4 * n) (insert p S) a"
      using order_refl sub by (rule node_ok_mono)
  qed
  have stf: "\<forall>q\<in>insert p S. descent (nodes t) q 0 g \<longrightarrow> stored (nodes tf) q g"
  proof (intro ballI impI)
    fix q assume q: "q \<in> insert p S" "descent (nodes t) q 0 g"
    show "stored (nodes tf) q g"
    proof (cases "q = p")
      case True then show ?thesis using pf(7) by simp
    next
      case False
      then have "q \<in> S" using q(1) by simp
      with find_terminal[OF tk, of q] obtain h where
        h: "descent (nodes t) q 0 h" "m_point (nodes t h) = q" by blast
      have "h = g" by (rule descent_unique[OF h(1) q(2)])
      then have "q = e" using h(2) by (simp add: e_def)
      then show ?thesis using pf(6) by simp
    qed
  qed
  have new: "\<forall>q\<in>insert p S. q \<notin> S \<longrightarrow> descent (nodes t) q 0 g"
    using g(1) by auto
  have le: "k \<le> k + 4 * n" by simp
  have sub2: "S \<subseteq> insert p S" by auto
  have "tree_ok tf (k + 4 * n) (insert p S)"
    by (rule tree_ok_update[OF tk gf(1,3) pf(1) le pf(2) pf(4) pf(5) oks sub2 stf new])
  then show ?thesis using run pf(3) by blast
qed

lemma Insert_ok:
  assumes tk: "tree_ok t k S"
  shows "\<exists>t' k'. Insert t p =
             Some (Inr (t', if p \<in> S then Insert_DuplicateEntry else Insert_Success)) \<and>
           tree_ok t' k' (insert p S) \<and> m_pageSize t' = m_pageSize t \<and>
           (p \<in> S \<longrightarrow> t' = t)"
proof (cases "p \<in> S")
  case True
  then have "insert p S = S" by auto
  then show ?thesis using Insert_duplicate[OF tk True] tk True by auto
next
  case False
  from find_terminal[OF tk, of p] obtain g where
    g: "descent (nodes t) p 0 g" "\<not> has_child (nodes t g)" "node_ok (nodes t) k S g"
    by blast
  have "m_nodeType (nodes t g) = Leaf \<or> m_nodeType (nodes t g) = Region"
    using g(2,3) by (auto simp: node_ok_def)
  then show ?thesis
  proof
    assume "m_nodeType (nodes t g) = Leaf"
    from Insert_into_leaf[OF tk False g(1) this] show ?thesis using False by auto
  next
    assume "m_nodeType (nodes t g) = Region"
    from Insert_into_region[OF tk False g(1) this] show ?thesis using False by auto
  qed
qed

lemma Find_ok:
  assumes tk: "tree_ok t k S"
  shows "Find t p = Some (Inr (if p \<in> S then Find_Success else Find_NoEntry))"
proof -
  from find_terminal[OF tk, of p] obtain g where
    g: "\<not> has_child (nodes t g)" "node_ok (nodes t) k S g"
      "CNode_Find (nodes t) 0 p = Some (Find_result (nodes t g) g p)"
      "p \<in> S \<longrightarrow> m_nodeType (nodes t g) = Leaf \<and> m_point (nodes t g) = p"
    by blast
  have rt: "m_pTreeRoot t = Some 0" "m_regionBounds (nodes t 0) = full_bounds"
    using tk by (simp_all add: tree_ok_def)
  have fr: "Find_result (nodes t g) g p =
      Inr (if p \<in> S then Find_Success else Find_NoEntry, g)"
    using g(1,2,4) by (auto simp: Find_result_def node_ok_def coord_eq_iff)
  show ?thesis
    by (simp add: Find_def rt Contains_full g(3) fr)
qed

lemma Reset_ok:
  assumes "pool_ok t k"
  shows "\<exists>t'. Reset t = Inr t' \<and> tree_ok t' 1 {} \<and> m_pageSize t' = m_pageSize t \<and>
           nodes t' 0 = region_node full_bounds 1"
proof -
  have p0: "pool_ok (t\<lparr>m_pPoolHead := m_pPoolRoot t\<rparr>) 0"
    using assms unfolding pool_ok_def top_def by auto
  from AllocateRegionNode_ok[OF p0, of full_bounds] obtain t1 where
    t1: "AllocateRegionNode (t\<lparr>m_pPoolHead := m_pPoolRoot t\<rparr>) full_bounds = Inr (t1, 0)"
      "pool_ok t1 (Suc 0)" "nodes t1 0 = region_node full_bounds (Suc 0)"
      "m_pageSize t1 = m_pageSize (t\<lparr>m_pPoolHead := m_pPoolRoot t\<rparr>)"
    by blast
  define t' where "t' = t1\<lparr>m_pTreeRoot := Some 0\<rparr>"
  have run: "Reset t = Inr t'" by (simp add: Reset_def t1(1) t'_def)
  have pk: "pool_ok t' 1" using t1(2) unfolding pool_ok_def top_def t'_def by simp
  have n0: "nodes t' 0 = region_node full_bounds 1" using t1(3) by (simp add: t'_def)
  have ok0: "node_ok (nodes t') 1 {} 0" using n0 cell_full by (rule node_ok_region)
  have "tree_ok t' 1 {}"
    unfolding tree_ok_def using pk ok0 n0 by (simp add: t'_def region_node_def)
  then show ?thesis using run n0 t1(4) by (simp add: t'_def)
qed

lemma CQuadTree_new_ok:
  assumes "2 \<le> pageSize"
  shows "\<exists>t. CQuadTree_new pageSize = Inr t \<and> tree_ok t 1 {} \<and> m_pageSize t = pageSize"
proof -
  define init where "init = \<lparr> m_pTreeRoot = None, m_pageSize = pageSize, m_pPoolHead = None,
                   m_pPoolRoot = None, m_pages = [], nodes = (\<lambda>a. CNode_default) \<rparr>"
  define t0 where "t0 = \<lparr> m_pTreeRoot = None, m_pageSize = pageSize, m_pPoolHead = Some 0,
                   m_pPoolRoot = Some 0, m_pages = [0],
                   nodes = (\<lambda>a. if a < pageSize
                      then CNode_default\<lparr>pPoolNext := if Suc a < pageSize then Some (Suc a) else None\<rparr>
                      else CNode_default) \<rparr>"
  have ps: "0 < pageSize" using assms by simp
  have ap: "AllocatePage init = Inr t0"
    unfolding init_def t0_def by (rule AllocatePage_first[OF ps])
  have p0: "pool_ok t0 0" using assms by (simp add: pool_ok_def top_def t0_def)
  have np: "needs_page init" "\<not> needs_page t0"
    using assms by (simp_all add: needs_page_def init_def t0_def)
  have an: "AllocateNode init = AllocateNode t0"
    using np ap by (simp add: AllocateNode_def)
  have i1: "init\<lparr>m_pPoolHead := m_pPoolRoot init\<rparr> = init" by (simp add: init_def)
  have i2: "t0\<lparr>m_pPoolHead := m_pPoolRoot t0\<rparr> = t0" by (simp add: t0_def)
  have rs: "Reset init = Reset t0"
    by (simp add: Reset_def i1 i2 AllocateRegionNode_def an)
  have "CQuadTree_new pageSize = Reset t0"
    using ps rs by (simp add: CQuadTree_new_def init_def)
  moreover have "m_pageSize t0 = pageSize" by (simp add: t0_def)
  ultimately show ?thesis using Reset_ok[OF p0] by auto
qed

lemma calls_ok:
  assumes "tree_ok t k S"
  shows "\<exists>t' k'. calls t cs = Some (Inr t') \<and> tree_ok t' k' (inserted_from S cs) \<and>
           m_pageSize t' = m_pageSize t"
  using assms
proof (induction cs arbitrary: t k S)
  case Nil
  then show ?case by auto
next
  case (Cons c cs)
  show ?case
  proof (cases c)
    case (Call_Insert p)
    from Insert_ok[OF Cons.prems, of p] obtain t1 k1 r where
      t1: "Insert t p = Some (Inr (t1, r))" "tree_ok t1 k1 (insert p S)"
        "m_pageSize t1 = m_pageSize t"
      by blast
    from Cons.IH[OF t1(2), of] show ?thesis
      using t1(1,3) Call_Insert by auto
  next
    case Call_Reset
    have "pool_ok t k" using Cons.prems by (simp add: tree_ok_def)
    from Reset_ok[OF this] obtain t1 where
      t1: "Reset t = Inr t1" "tree_ok t1 1 {}" "m_pageSize t1 = m_pageSize t"
      by blast
    from Cons.IH[OF t1(2)] show ?thesis
      using t1(1,3) Call_Reset by auto
  qed
qed

lemma session_ok:
  assumes "2 \<le> pageSize"
  shows "\<exists>t k. session pageSize cs = Some (Inr t) \<and> tree_ok t k (inserted cs) \<and>
           m_pageSize t = pageSize"
proof -
  from CQuadTree_new_ok[OF assms] obtain t0 where
    t0: "CQuadTree_new pageSize = Inr t0" "tree_ok t0 1 {}" "m_pageSize t0 = pageSize"
    by blast
  from calls_ok[OF t0(2), of cs] show ?thesis
    using t0(1,3) by (auto simp: session_def inserted_def)
qed

lemma Find_result_node: "Find_result n a p = Inr (r, g) \<Longrightarrow> g = a"
  by (auto simp: Find_result_def split: if_splits)

lemma CNode_Find_result_aux:
  "CNode_Find mem a p = Some y \<Longrightarrow>
   (\<forall>r g. y = Inr (r, g) \<longrightarrow> Find_result (mem g) g p = Inr (r, g))"
proof (induction rule: CNode_Find.raw_induct[rotated 1, consumes 1])
  case (1 f mem a p y)
  show ?case
  proof (cases "m_pNorthWest (mem a)")
    case None
    then have "y = Find_result (mem a) a p" using 1(2) by simp
    then show ?thesis using Find_result_node by metis
  next
    case (Some nw)
    show ?thesis
    proof (cases "choose_child mem (mem a) nw p")
      case (Inl e)
      then show ?thesis using 1(2) Some by auto
    next
      case (Inr c)
      then have "f mem c p = Some y" using 1(2) Some by simp
      from 1(1)[OF this] show ?thesis .
    qed
  qed
qed

lemma CNode_Find_result:
  "CNode_Find mem a p = Some (Inr (r, g)) \<Longrightarrow> Find_result (mem g) g p = Inr (r, g)"
  using CNode_Find_result_aux by blast

lemma Find_result_Success:
  "Find_result n g p = Inr (Find_Success, g') \<Longrightarrow> coord_eq (m_point n) p"
  by (auto simp: Find_result_def split: if_splits)


section \<open>SanityCheck on a well-formed tree\<close>

lemma cell_bounds_asserts:
  assumes "cell (Suc j) b"
  shows "bounds_asserts b"
proof -
  note w = cell_wide[OF assms]
  have "c_x (b_max b) \<noteq> 0" using w(1) by (metis word_not_simps(1))
  then show ?thesis
    using w by (simp add: bounds_asserts_def bounds_ne_def coord_ne_def well_ordered_def
        CCoordinate_default_def)
qed

lemma cell_children_asserts:
  assumes c: "cell (Suc (Suc j)) b" and sb: "SplitBounds b = (b1, b2, b3, b4)"
  shows "children_asserts b b1 b2 b3 b4"
proof -
  obtain x0 y0 x1 y1 where b: "b = CBounds (CCoordinate x0 y0) (CCoordinate x1 y1)"
    by (metis CBounds.exhaust CCoordinate.exhaust)
  define cx where "cx = x0 + (x1 - x0) div 2"
  define cy where "cy = y0 + (y1 - y0) div 2"
  have sx: "seg (Suc (Suc j)) x0 x1" and sy: "seg (Suc (Suc j)) y0 y1"
    using c by (simp_all add: cell_def b)
  have ch: "b1 = CBounds (CCoordinate x0 y0) (CCoordinate cx cy)"
    "b2 = CBounds (CCoordinate (cx + 1) y0) (CCoordinate x1 cy)"
    "b3 = CBounds (CCoordinate (cx + 1) (cy + 1)) (CCoordinate x1 y1)"
    "b4 = CBounds (CCoordinate x0 (cy + 1)) (CCoordinate cx y1)"
    using sb unfolding b SplitBounds_eq cx_def cy_def by simp_all
  have X: "x0 < x1" and Y: "y0 < y1" using seg_split(1)[OF sx] seg_split(1)[OF sy] by simp_all
  note fx = split1[OF X, folded cx_def] and fy = split1[OF Y, folded cy_def]
  note dx = seg_deep[OF sx, folded cx_def] and dy = seg_deep[OF sy, folded cy_def]
  have ux: "unat x0 < unat cx" "unat (cx + 1) = unat cx + 1" "unat cx + 1 < unat x1"
    using dx fx(6) by (simp_all add: word_less_nat_alt)
  have uy: "unat y0 < unat cy" "unat (cy + 1) = unat cy + 1" "unat cy + 1 < unat y1"
    using dy fy(6) by (simp_all add: word_less_nat_alt)
  show ?thesis
    unfolding children_asserts_def ch b Contains_def
    using ux uy
    by (simp add: word_le_nat_alt word_less_nat_alt)
qed

lemma cell_one_children_asserts:
  assumes c: "cell (Suc 0) b" and sb: "SplitBounds b = (b1, b2, b3, b4)"
  shows "\<not> children_asserts b b1 b2 b3 b4"
proof -
  obtain x0 y0 x1 y1 where b: "b = CBounds (CCoordinate x0 y0) (CCoordinate x1 y1)"
    by (metis CBounds.exhaust CCoordinate.exhaust)
  have sy: "seg (Suc 0) y0 y1" using c by (simp add: cell_def b)
  have "c_y (b_min b1) = y0" "c_y (b_max b2) = y0 + (y1 - y0) div 2"
    using sb unfolding b SplitBounds_eq by auto
  then have "\<not> c_y (b_min b1) < c_y (b_max b2)" using seg_one(1)[OF sy] by simp
  then show ?thesis by (simp add: children_asserts_def)
qed

lemma child_inside:
  assumes c: "cell (Suc j) b" and sb: "SplitBounds b = (b1, b2, b3, b4)"
    and p: "Contains b1 p \<or> Contains b2 p \<or> Contains b3 p \<or> Contains b4 p"
  shows "Contains b p"
  using Split_cover[OF cell_wide(1,2)[OF c] sb, of p] p by simp

lemma same_quad_cell:
  assumes "cell (Suc j) b" "Contains b p" "same_quad p q"
  shows "Contains b q"
proof -
  have sx: "seg (Suc j) (c_x (b_min b)) (c_x (b_max b))"
    and sy: "seg (Suc j) (c_y (b_min b)) (c_y (b_max b))"
    using assms(1) by (simp_all add: cell_def)
  have "c_x (b_min b) \<le> c_x q \<and> c_x q \<le> c_x (b_max b)"
    using assms(2,3) by (intro seg_near[OF sx, of "c_x p"]) (simp_all add: Contains_def same_quad_def)
  moreover have "c_y (b_min b) \<le> c_y q \<and> c_y q \<le> c_y (b_max b)"
    using assms(2,3) by (intro seg_near[OF sy, of "c_y p"]) (simp_all add: Contains_def same_quad_def)
  ultimately show ?thesis by (simp add: Contains_def)
qed

lemma cell_one_same_quad:
  assumes "cell (Suc 0) b" "Contains b p" "Contains b q"
  shows "same_quad p q"
proof -
  have sx: "seg (Suc 0) (c_x (b_min b)) (c_x (b_max b))"
    and sy: "seg (Suc 0) (c_y (b_min b)) (c_y (b_max b))"
    using assms(1) by (simp_all add: cell_def)
  show ?thesis
    using assms(2,3) seg_pair[OF sx, of "c_x p" "c_x q"] seg_pair[OF sy, of "c_y p" "c_y q"]
    by (simp add: Contains_def same_quad_def)
qed

lemma result_cases: "(r :: error + unit) = Inl AssertionFailed \<or> r = Inr ()"
  by (cases r) (auto intro: error.exhaust)

lemma SCR_childless:
  assumes "node_ok mem k S c" "\<not> has_child (mem c)"
  shows "SanityCheckChild_Recursive mem (Some c) =
           Some (if bounds_asserts (m_regionBounds (mem c)) then Inr () else Inl AssertionFailed)"
proof -
  have nw: "m_pNorthWest (mem c) = None" using assms(2) by (rule no_child_NW)
  have "(m_nodeType (mem c) = Leaf \<and> Contains (m_regionBounds (mem c)) (m_point (mem c))) \<or>
        (m_nodeType (mem c) = Region \<and> m_point (mem c) = CCoordinate_default)"
    using assms by (auto simp: node_ok_def)
  then show ?thesis
    using assms(2) nw
    by (subst SanityCheckChild_Recursive.simps)
      (auto simp: coord_eq_iff CCoordinate_default_def)
qed

lemma SCR_split:
  assumes ty: "m_nodeType (mem c) = Region" "m_point (mem c) = CCoordinate_default"
    and ch: "m_pNorthWest (mem c) = Some nw" "m_pNorthEast (mem c) = Some ne"
      "m_pSouthEast (mem c) = Some se" "m_pSouthWest (mem c) = Some sw"
    and r: "SanityCheckChild_Recursive mem (Some nw) = Some r1"
      "SanityCheckChild_Recursive mem (Some ne) = Some r2"
      "SanityCheckChild_Recursive mem (Some se) = Some r3"
      "SanityCheckChild_Recursive mem (Some sw) = Some r4"
  shows "SanityCheckChild_Recursive mem (Some c) =
           Some (if bounds_asserts (m_regionBounds (mem c)) \<and>
                    children_asserts (m_regionBounds (mem c))
                      (m_regionBounds (mem nw)) (m_regionBounds (mem ne))
                      (m_regionBounds (mem se)) (m_regionBounds (mem sw)) \<and>
                    leaf_child_assert (m_regionBounds (mem c)) (mem nw) \<and> r1 = Inr () \<and>
                    leaf_child_assert (m_regionBounds (mem c)) (mem ne) \<and> r2 = Inr () \<and>
                    leaf_child_assert (m_regionBounds (mem c)) (mem se) \<and> r3 = Inr () \<and>
                    leaf_child_assert (m_regionBounds (mem c)) (mem sw) \<and> r4 = Inr ()
                 then Inr () else Inl AssertionFailed)"
  using result_cases[of r1] result_cases[of r2] result_cases[of r3] result_cases[of r4]
  by (subst SanityCheckChild_Recursive.simps)
    (auto simp: ty ch r coord_eq_iff CCoordinate_default_def)

lemma split_node_children:
  assumes "split_node mem k a"
  obtains nw ne se sw where
    "m_pNorthWest (mem a) = Some nw" "m_pNorthEast (mem a) = Some ne"
    "m_pSouthEast (mem a) = Some se" "m_pSouthWest (mem a) = Some sw"
    "a < nw" "nw < k" "a < ne" "ne < k" "a < se" "se < k" "a < sw" "sw < k"
    "SplitBounds (m_regionBounds (mem a)) =
       (m_regionBounds (mem nw), m_regionBounds (mem ne),
        m_regionBounds (mem se), m_regionBounds (mem sw))"
    "m_nodeType (mem a) = Region" "m_point (mem a) = CCoordinate_default"
  using assms unfolding split_node_def by blast

lemma SC_total:
  assumes ok: "\<forall>a<k. node_ok mem k S a"
  shows "a < k \<Longrightarrow> \<exists>r. SanityCheckChild_Recursive mem (Some a) = Some r"
proof (induction "k - a" arbitrary: a rule: less_induct)
  case less
  have nok: "node_ok mem k S a" using ok less.prems by simp
  show ?case
  proof (cases "has_child (mem a)")
    case True
    then have sn: "split_node mem k a" using nok by (simp add: node_ok_def)
    from sn obtain nw ne se sw where
      ch: "m_pNorthWest (mem a) = Some nw" "m_pNorthEast (mem a) = Some ne"
        "m_pSouthEast (mem a) = Some se" "m_pSouthWest (mem a) = Some sw"
      and lt: "a < nw" "nw < k" "a < ne" "ne < k" "a < se" "se < k" "a < sw" "sw < k"
      and ty: "m_nodeType (mem a) = Region" "m_point (mem a) = CCoordinate_default"
      by (rule split_node_children)
    have "k - nw < k - a" "k - ne < k - a" "k - se < k - a" "k - sw < k - a"
      using lt by simp_all
    with less.hyps lt obtain r1 r2 r3 r4 where
      r: "SanityCheckChild_Recursive mem (Some nw) = Some r1"
        "SanityCheckChild_Recursive mem (Some ne) = Some r2"
        "SanityCheckChild_Recursive mem (Some se) = Some r3"
        "SanityCheckChild_Recursive mem (Some sw) = Some r4"
      by metis
    show ?thesis using SCR_split[OF ty ch r] by blast
  next
    case False
    show ?thesis using SCR_childless[OF nok False] by blast
  qed
qed

lemma leaf_child_ok:
  assumes nok: "node_ok mem k S c"
    and ins: "Contains (m_regionBounds (mem c)) (m_point (mem c)) \<Longrightarrow>
              Contains rb (m_point (mem c))"
  shows "leaf_child_assert rb (mem c)"
proof (cases "m_nodeType (mem c) = Leaf")
  case True
  then have "Contains (m_regionBounds (mem c)) (m_point (mem c))"
    using nok by (auto simp: node_ok_def split_node_def split: if_splits)
  then show ?thesis using ins by (simp add: leaf_child_assert_def)
next
  case False
  then show ?thesis by (simp add: leaf_child_assert_def)
qed

lemma SC_pass:
  assumes ok: "\<forall>a<k. node_ok mem k S a" and nc: "\<not> crowded S"
  shows "a < k \<Longrightarrow> cell (Suc j) (m_regionBounds (mem a)) \<Longrightarrow>
         SanityCheckChild_Recursive mem (Some a) = Some (Inr ())"
proof (induction "k - a" arbitrary: a j rule: less_induct)
  case less
  have nok: "node_ok mem k S a" using ok less.prems by simp
  have ba: "bounds_asserts (m_regionBounds (mem a))"
    by (rule cell_bounds_asserts[OF less.prems(2)])
  show ?case
  proof (cases "has_child (mem a)")
    case True
    then have sn: "split_node mem k a" using nok by (simp add: node_ok_def)
    from sn obtain nw ne se sw where
      ch: "m_pNorthWest (mem a) = Some nw" "m_pNorthEast (mem a) = Some ne"
        "m_pSouthEast (mem a) = Some se" "m_pSouthWest (mem a) = Some sw"
      and lt: "a < nw" "nw < k" "a < ne" "ne < k" "a < se" "se < k" "a < sw" "sw < k"
      and sb: "SplitBounds (m_regionBounds (mem a)) =
       (m_regionBounds (mem nw), m_regionBounds (mem ne),
        m_regionBounds (mem se), m_regionBounds (mem sw))"
      and ty: "m_nodeType (mem a) = Region" "m_point (mem a) = CCoordinate_default"
      by (rule split_node_children)
    from nok True obtain p q where
      pq: "p \<in> S" "q \<in> S" "p \<noteq> q" "Contains (m_regionBounds (mem a)) p"
        "Contains (m_regionBounds (mem a)) q"
      by (auto simp: node_ok_def)
    have "j \<noteq> 0"
    proof
      assume "j = 0"
      then have "same_quad p q" using cell_one_same_quad less.prems(2) pq(4,5) by simp
      then show False using nc pq(1-3) by (auto simp: crowded_def)
    qed
    then obtain j' where j': "j = Suc j'" by (cases j) auto
    have ca: "children_asserts (m_regionBounds (mem a))
                      (m_regionBounds (mem nw)) (m_regionBounds (mem ne))
                      (m_regionBounds (mem se)) (m_regionBounds (mem sw))"
      using less.prems(2) sb unfolding j' by (rule cell_children_asserts)
    note cs = cell_split[OF less.prems(2) sb, unfolded j']
    note ins = child_inside[OF less.prems(2) sb]
    have l: "leaf_child_assert (m_regionBounds (mem a)) (mem nw)"
      "leaf_child_assert (m_regionBounds (mem a)) (mem ne)"
      "leaf_child_assert (m_regionBounds (mem a)) (mem se)"
      "leaf_child_assert (m_regionBounds (mem a)) (mem sw)"
      using ok lt ins by (auto intro!: leaf_child_ok[where k=k and S=S])
    have d: "k - nw < k - a" "k - ne < k - a" "k - se < k - a" "k - sw < k - a"
      using lt by simp_all
    have r: "SanityCheckChild_Recursive mem (Some nw) = Some (Inr ())"
        "SanityCheckChild_Recursive mem (Some ne) = Some (Inr ())"
        "SanityCheckChild_Recursive mem (Some se) = Some (Inr ())"
        "SanityCheckChild_Recursive mem (Some sw) = Some (Inr ())"
      using less.hyps[OF d(1) lt(2) cs(1)] less.hyps[OF d(2) lt(4) cs(2)]
        less.hyps[OF d(3) lt(6) cs(3)] less.hyps[OF d(4) lt(8) cs(4)]
      by simp_all
    show ?thesis using SCR_split[OF ty ch r] ba ca l by simp
  next
    case False
    show ?thesis using SCR_childless[OF nok False] ba by simp
  qed
qed

lemma stored_childless:
  assumes "stored mem p a" "m_pNorthWest (mem a) = None"
  shows "m_nodeType (mem a) = Leaf \<and> m_point (mem a) = p"
proof -
  from assms(1) obtain g where g: "descent mem p a g" "m_nodeType (mem g) = Leaf"
    "m_point (mem g) = p"
    by (auto simp: stored_def)
  from g(1) assms(2) have "g = a" by (cases rule: descent.cases) auto
  then show ?thesis using g by simp
qed

lemma stored_child:
  assumes "stored mem p a" "m_pNorthWest (mem a) = Some nw"
  shows "\<exists>c. choose_child mem (mem a) nw p = Inr c \<and> stored mem p c"
proof -
  from assms(1) obtain g where g: "descent mem p a g" "m_nodeType (mem g) = Leaf"
    "m_point (mem g) = p"
    by (auto simp: stored_def)
  from g(1) assms(2) obtain c where "choose_child mem (mem a) nw p = Inr c" "descent mem p c g"
    by (cases rule: descent.cases) auto
  then show ?thesis using g by (auto simp: stored_def)
qed

lemma choose_child_unique:
  assumes cq: "choose_child mem n nw q = Inr cq" and cp: "choose_child mem n nw p = Inr cp"
    and q: "Contains (m_regionBounds (mem cp)) q"
    and ch: "m_pNorthEast n = Some ne" "m_pSouthEast n = Some se" "m_pSouthWest n = Some sw"
    and dj: "\<not> (Contains (m_regionBounds (mem nw)) q \<and> Contains (m_regionBounds (mem ne)) q)"
      "\<not> (Contains (m_regionBounds (mem nw)) q \<and> Contains (m_regionBounds (mem se)) q)"
      "\<not> (Contains (m_regionBounds (mem nw)) q \<and> Contains (m_regionBounds (mem sw)) q)"
      "\<not> (Contains (m_regionBounds (mem ne)) q \<and> Contains (m_regionBounds (mem se)) q)"
      "\<not> (Contains (m_regionBounds (mem ne)) q \<and> Contains (m_regionBounds (mem sw)) q)"
      "\<not> (Contains (m_regionBounds (mem se)) q \<and> Contains (m_regionBounds (mem sw)) q)"
  shows "cq = cp"
proof -
  have p': "cp = nw \<or> cp = ne \<or> cp = se \<or> cp = sw"
    using choose_child_cases[OF cp] ch by auto
  show ?thesis
    using cq q p' dj unfolding choose_child_def ch
    by (auto split: if_splits)
qed

lemma SC_fail:
  assumes ok: "\<forall>a<k. node_ok mem k S a" and ne: "p \<noteq> q" and sq: "same_quad p q"
  shows "a < k \<Longrightarrow> stored mem p a \<Longrightarrow> stored mem q a \<Longrightarrow>
         SanityCheckChild_Recursive mem (Some a) = Some (Inl AssertionFailed)"
proof (induction "k - a" arbitrary: a rule: less_induct)
  case less
  have nok: "node_ok mem k S a" using ok less.prems by simp
  show ?case
  proof (cases "has_child (mem a)")
    case False
    then have nw: "m_pNorthWest (mem a) = None" by (rule no_child_NW)
    from stored_childless[OF less.prems(2) nw] stored_childless[OF less.prems(3) nw] ne
    show ?thesis by simp
  next
    case True
    then have sn: "split_node mem k a" using nok by (simp add: node_ok_def)
    from sn obtain nw ne se sw where
      ch: "m_pNorthWest (mem a) = Some nw" "m_pNorthEast (mem a) = Some ne"
        "m_pSouthEast (mem a) = Some se" "m_pSouthWest (mem a) = Some sw"
      and lt: "a < nw" "nw < k" "a < ne" "ne < k" "a < se" "se < k" "a < sw" "sw < k"
      and sb: "SplitBounds (m_regionBounds (mem a)) =
       (m_regionBounds (mem nw), m_regionBounds (mem ne),
        m_regionBounds (mem se), m_regionBounds (mem sw))"
      and ty: "m_nodeType (mem a) = Region" "m_point (mem a) = CCoordinate_default"
      by (rule split_node_children)
    from SC_total[OF ok] lt obtain r1 r2 r3 r4 where
      r: "SanityCheckChild_Recursive mem (Some nw) = Some r1"
        "SanityCheckChild_Recursive mem (Some ne) = Some r2"
        "SanityCheckChild_Recursive mem (Some se) = Some r3"
        "SanityCheckChild_Recursive mem (Some sw) = Some r4"
      by metis
    note cf = SCR_split[OF ty ch r]
    from node_ok_level[OF nok True] obtain j where j: "cell (Suc j) (m_regionBounds (mem a))" ..
    show ?thesis
    proof (cases j)
      case 0
      then have "\<not> children_asserts (m_regionBounds (mem a))
                      (m_regionBounds (mem nw)) (m_regionBounds (mem ne))
                      (m_regionBounds (mem se)) (m_regionBounds (mem sw))"
        using j sb by (intro cell_one_children_asserts) simp_all
      then show ?thesis using cf by simp
    next
      case (Suc j')
      from stored_child[OF less.prems(2) ch(1)] obtain cp where
        cp: "choose_child mem (mem a) nw p = Inr cp" "stored mem p cp" by blast
      from stored_child[OF less.prems(3) ch(1)] obtain cq where
        cq: "choose_child mem (mem a) nw q = Inr cq" "stored mem q cq" by blast
      have pcs: "cp = nw \<or> cp = ne \<or> cp = se \<or> cp = sw"
        and cpp: "Contains (m_regionBounds (mem cp)) p"
        using choose_child_cases[OF cp(1)] ch by auto
      note cs = cell_split[OF j sb, unfolded Suc]
      have ccp: "cell (Suc j') (m_regionBounds (mem cp))" using pcs cs by auto
      have cpq: "Contains (m_regionBounds (mem cp)) q" by (rule same_quad_cell[OF ccp cpp sq])
      note w = cell_wide[OF j]
      note dj = Split_disjoint[OF w(1,2) sb, of q]
      have "cq = cp"
        using dj by (intro choose_child_unique[OF cq(1) cp(1) cpq ch(2-4)]) simp_all
      then have sq': "stored mem q cp" using cq(2) by simp
      have cpk: "cp < k" "k - cp < k - a" using pcs lt by auto
      have bad: "SanityCheckChild_Recursive mem (Some cp) = Some (Inl AssertionFailed)"
        by (rule less.hyps[OF cpk(2) cpk(1) cp(2) sq'])
      have "r1 = Inl AssertionFailed \<or> r2 = Inl AssertionFailed \<or>
            r3 = Inl AssertionFailed \<or> r4 = Inl AssertionFailed"
        using pcs bad r by auto
      then show ?thesis using cf by auto
    qed
  qed
qed

lemma SanityCheck_ok:
  assumes tk: "tree_ok t k S"
  shows "SanityCheck t = Some (if crowded S then Inl AssertionFailed else Inr ())"
proof -
  have ok: "\<forall>a<k. node_ok (nodes t) k S a" and k0: "0 < k"
    and fb: "m_regionBounds (nodes t 0) = full_bounds"
    and st: "\<forall>q\<in>S. stored (nodes t) q 0"
    and rt: "m_pTreeRoot t = Some 0"
    using tk by (simp_all add: tree_ok_def)
  show ?thesis
  proof (cases "crowded S")
    case True
    then obtain p q where pq: "p \<in> S" "q \<in> S" "p \<noteq> q" "same_quad p q"
      by (auto simp: crowded_def)
    have "stored (nodes t) p 0" "stored (nodes t) q 0" using st pq by auto
    from SC_fail[OF ok pq(3,4) k0 this] show ?thesis using True by (simp add: SanityCheck_def rt)
  next
    case False
    have c: "cell (Suc 63) (m_regionBounds (nodes t 0))" using cell_full fb by simp
    from SC_pass[OF ok False k0 c] show ?thesis using False by (simp add: SanityCheck_def rt)
  qed
qed

lemma session_verdict:
  assumes "2 \<le> pageSize"
  shows "\<exists>t. session pageSize cs = Some (Inr t) \<and>
           (\<forall>p. Find t p =
                  Some (Inr (if p \<in> inserted cs then Find_Success else Find_NoEntry))) \<and>
           SanityCheck t = Some (if crowded (inserted cs) then Inl AssertionFailed else Inr ())"
proof -
  from session_ok[OF assms, of cs] obtain t k where
    t: "session pageSize cs = Some (Inr t)" "tree_ok t k (inserted cs)"
    by blast
  show ?thesis using t(1) Find_ok[OF t(2)] SanityCheck_ok[OF t(2)] by blast
qed

lemma quad_2_3: "same_quad (CCoordinate 2 2) (CCoordinate 3 3)"
  by (simp add: same_quad_def)

lemma quad_0_1: "same_quad (CCoordinate 0 0) (CCoordinate 1 1)"
  by (simp add: same_quad_def)

section \<open>Trees reached by a sequence of calls\<close>

lemma CQuadTree_new_one: "CQuadTree_new 1 = Inl AssertionFailed"
proof -
  have "isl (CQuadTree_new 1)" by code_simp
  then show ?thesis by (cases "CQuadTree_new 1") (auto intro: error.exhaust)
qed

lemma session_pageSize:
  assumes "session pageSize cs = Some (Inr t)"
  shows "2 \<le> pageSize"
proof (rule ccontr)
  assume "\<not> 2 \<le> pageSize"
  then have "pageSize = 0 \<or> pageSize = 1" by arith
  then have "CQuadTree_new pageSize = Inl AssertionFailed"
    using CQuadTree_new_one by (auto simp: CQuadTree_new_def)
  then show False using assms by (simp add: session_def)
qed

lemma session_tree_ok:
  assumes "session pageSize cs = Some (Inr t)"
  shows "\<exists>k. tree_ok t k (inserted cs)"
  using session_ok[OF session_pageSize[OF assms], of cs] assms by auto

lemma inserted_from_map: "inserted_from S (map Call_Insert ps) = S \<union> set ps"
  by (induction ps arbitrary: S) auto

lemma inserted_map: "inserted (map Call_Insert ps) = set ps"
  by (simp add: inserted_def inserted_from_map)

section \<open>The claims\<close>

text \<open>
  Claim C1 (round trip): after any sequence of \<^verbatim>\<open>Insert\<close> and \<^verbatim>\<open>Reset\<close> calls on a tree
  constructed with a page size of at least two, no assertion has failed, and \<^verbatim>\<open>Find\<close>
  returns Success on every coordinate inserted since the last \<^verbatim>\<open>Reset\<close> and NoEntry on
  every other coordinate.
\<close>

theorem round_trip:
  assumes "2 \<le> pageSize"
  shows "\<exists>t. session pageSize cs = Some (Inr t) \<and>
           (\<forall>p. Find t p =
                  Some (Inr (if p \<in> inserted cs then Find_Success else Find_NoEntry)))"
proof -
  from session_ok[OF assms, of cs] obtain t k where
    t: "session pageSize cs = Some (Inr t)" "tree_ok t k (inserted cs)"
    by blast
  show ?thesis using t(1) Find_ok[OF t(2)] by blast
qed

theorem round_trip_witness:
  "\<exists>t. session 4 [Call_Insert (CCoordinate 3 5), Call_Reset, Call_Insert (CCoordinate 0 0),
                   Call_Insert (CCoordinate 7 1)] = Some (Inr t) \<and>
       Find t (CCoordinate 0 0) = Some (Inr Find_Success) \<and>
       Find t (CCoordinate 7 1) = Some (Inr Find_Success) \<and>
       Find t (CCoordinate 3 5) = Some (Inr Find_NoEntry)"
proof -
  have ps: "(2::nat) \<le> 4" by simp
  from round_trip[OF ps, of "[Call_Insert (CCoordinate 3 5), Call_Reset,
      Call_Insert (CCoordinate 0 0), Call_Insert (CCoordinate 7 1)]"]
  show ?thesis by (auto simp: inserted_def)
qed

text \<open>
  Claim C2 says that constructing a tree succeeds for every \<open>pageSize > 0\<close>, in particular
  for \<open>pageSize = 1\<close>. With one node per page the constructor does not succeed: the first
  \<^verbatim>\<open>AllocateNode\<close> allocates a page whose only node has no successor, and
  \<^verbatim>\<open>assert(m_pPoolHead->pPoolNext != nullptr)\<close> fires.
\<close>

theorem pageSize_one_fails: "CQuadTree_new 1 = Inl AssertionFailed"
proof -
  have "isl (CQuadTree_new 1)" by code_simp
  then show ?thesis by (cases "CQuadTree_new 1") (auto intro: error.exhaust)
qed

text \<open>
  Claim C3 (duplicate rejection): when \<^verbatim>\<open>Find\<close> reports the coordinate as present,
  \<^verbatim>\<open>Insert\<close> returns DuplicateEntry, and the tree and pool state it returns is the state
  it was given. This holds in every state of the tree object.
\<close>

theorem duplicate_rejected:
  assumes "Find t p = Some (Inr Find_Success)"
  shows "Insert t p = Some (Inr (t, Insert_DuplicateEntry))"
proof -
  from assms obtain r where r: "m_pTreeRoot t = Some r"
    by (auto simp: Find_def split: option.splits)
  have c: "Contains (m_regionBounds (nodes t r)) p"
    using assms r by (auto simp: Find_def split: if_splits)
  obtain g where g: "CNode_Find (nodes t) r p = Some (Inr (Find_Success, g))"
    using assms r c by (auto simp: Find_def split: option.splits sum.splits)
  have "coord_eq (m_point (nodes t g)) p"
    using CNode_Find_result[OF g] by (rule Find_result_Success)
  then show ?thesis by (simp add: Insert_def r c g)
qed

theorem duplicate_rejected_witness:
  "\<exists>t. session 4 [Call_Insert (CCoordinate 3 5)] = Some (Inr t) \<and>
       Find t (CCoordinate 3 5) = Some (Inr Find_Success) \<and>
       Insert t (CCoordinate 3 5) = Some (Inr (t, Insert_DuplicateEntry))"
proof -
  have ps: "(2::nat) \<le> 4" by simp
  from session_ok[OF ps, of "[Call_Insert (CCoordinate 3 5)]"] obtain t k where
    t: "session 4 [Call_Insert (CCoordinate 3 5)] = Some (Inr t)"
      "tree_ok t k (inserted [Call_Insert (CCoordinate 3 5)])"
    by blast
  have f: "Find t (CCoordinate 3 5) = Some (Inr Find_Success)"
    using Find_ok[OF t(2), of "CCoordinate 3 5"] by (simp add: inserted_def)
  show ?thesis using t(1) f duplicate_rejected[OF f] by blast
qed

text \<open>
  Claim C4 (split): for bounds with \<open>min \<le> max\<close> that span at least two units in each
  dimension, the four quadrants that \<^verbatim>\<open>Split\<close> computes are each well ordered and inside
  the parent, a point lies in the parent exactly when it lies in one of them, and no point
  lies in two of them.
\<close>

theorem Split_partition:
  assumes wo: "well_ordered rb"
    and wide: "c_x (b_max rb) > c_x (b_min rb)" "c_y (b_max rb) > c_y (b_min rb)"
    and sp: "SplitBounds rb = (nw, ne, se, sw)"
  shows "(well_ordered nw \<and> well_ordered ne \<and> well_ordered se \<and> well_ordered sw) \<and>
         (inside nw rb \<and> inside ne rb \<and> inside se rb \<and> inside sw rb) \<and>
         (\<forall>p. Contains rb p =
               (Contains nw p \<or> Contains ne p \<or> Contains se p \<or> Contains sw p)) \<and>
         (\<forall>p. \<not> (Contains nw p \<and> Contains ne p) \<and> \<not> (Contains nw p \<and> Contains se p) \<and>
              \<not> (Contains nw p \<and> Contains sw p) \<and> \<not> (Contains ne p \<and> Contains se p) \<and>
              \<not> (Contains ne p \<and> Contains sw p) \<and> \<not> (Contains se p \<and> Contains sw p))"
proof -
  obtain x0 y0 x1 y1 where rb: "rb = CBounds (CCoordinate x0 y0) (CCoordinate x1 y1)"
    by (metis CBounds.exhaust CCoordinate.exhaust)
  define cx where "cx = x0 + (x1 - x0) div 2"
  define cy where "cy = y0 + (y1 - y0) div 2"
  have X: "x0 < x1" and Y: "y0 < y1" using wide by (simp_all add: rb)
  note fx = split1[OF X, folded cx_def]
  note fy = split1[OF Y, folded cy_def]
  have ch: "nw = CBounds (CCoordinate x0 y0) (CCoordinate cx cy)"
    "ne = CBounds (CCoordinate (cx + 1) y0) (CCoordinate x1 cy)"
    "se = CBounds (CCoordinate (cx + 1) (cy + 1)) (CCoordinate x1 y1)"
    "sw = CBounds (CCoordinate x0 (cy + 1)) (CCoordinate cx y1)"
    using sp unfolding rb SplitBounds_eq cx_def cy_def by simp_all
  have xs: "x0 \<le> cx" "cx \<le> x1" "x0 \<le> cx + 1" "cx + 1 \<le> x1" "x0 \<le> x1"
    using fx by simp_all
  have ys: "y0 \<le> cy" "cy \<le> y1" "y0 \<le> cy + 1" "cy + 1 \<le> y1" "y0 \<le> y1"
    using fy by simp_all
  have wos: "well_ordered nw \<and> well_ordered ne \<and> well_ordered se \<and> well_ordered sw"
    using xs ys by (simp add: ch well_ordered_def)
  have ins: "inside nw rb \<and> inside ne rb \<and> inside se rb \<and> inside sw rb"
    using xs ys by (simp add: ch rb inside_def Contains_def)
  show ?thesis
    using wos ins Split_cover[OF wide sp] Split_disjoint[OF wide sp] by blast
qed

theorem Split_partition_witness:
  "SplitBounds (CBounds (CCoordinate 0 0) (CCoordinate 7 7)) =
     (CBounds (CCoordinate 0 0) (CCoordinate 3 3), CBounds (CCoordinate 4 0) (CCoordinate 7 3),
      CBounds (CCoordinate 4 4) (CCoordinate 7 7), CBounds (CCoordinate 0 4) (CCoordinate 3 7)) \<and>
   well_ordered (CBounds (CCoordinate 4 0) (CCoordinate 7 3)) \<and>
   inside (CBounds (CCoordinate 4 4) (CCoordinate 7 7)) (CBounds (CCoordinate 0 0) (CCoordinate 7 7)) \<and>
   (\<forall>p. Contains (CBounds (CCoordinate 0 0) (CCoordinate 7 7)) p =
      (Contains (CBounds (CCoordinate 0 0) (CCoordinate 3 3)) p \<or>
       Contains (CBounds (CCoordinate 4 0) (CCoordinate 7 3)) p \<or>
       Contains (CBounds (CCoordinate 4 4) (CCoordinate 7 7)) p \<or>
       Contains (CBounds (CCoordinate 0 4) (CCoordinate 3 7)) p)) \<and>
   (\<forall>p. \<not> (Contains (CBounds (CCoordinate 0 0) (CCoordinate 3 3)) p \<and>
            Contains (CBounds (CCoordinate 0 4) (CCoordinate 3 7)) p))"
proof -
  have sp: "SplitBounds (CBounds (CCoordinate 0 0) (CCoordinate 7 7)) =
     (CBounds (CCoordinate 0 0) (CCoordinate 3 3), CBounds (CCoordinate 4 0) (CCoordinate 7 3),
      CBounds (CCoordinate 4 4) (CCoordinate 7 7), CBounds (CCoordinate 0 4) (CCoordinate 3 7))"
    by (simp add: SplitBounds_eq)
  have wo: "well_ordered (CBounds (CCoordinate 0 0) (CCoordinate 7 7))"
    by (simp add: well_ordered_def)
  have w: "c_x (b_min (CBounds (CCoordinate 0 0) (CCoordinate 7 7))) <
           c_x (b_max (CBounds (CCoordinate 0 0) (CCoordinate 7 7)))"
     "c_y (b_min (CBounds (CCoordinate 0 0) (CCoordinate 7 7))) <
      c_y (b_max (CBounds (CCoordinate 0 0) (CCoordinate 7 7)))"
    by simp_all
  show ?thesis using Split_partition[OF wo w sp] sp by blast
qed

text \<open>
  Claim C5 (the collision loop): in a tree reached by a sequence of calls, when the descent
  for \<open>point\<close> ends at a leaf that holds another coordinate, the split loop of \<^verbatim>\<open>Insert\<close>
  returns after at most 64 iterations, without a failed assertion, and the existing
  coordinate and \<open>point\<close> lie in the bounds of two different nodes.
\<close>

theorem collision_loop_terminates:
  assumes "session pageSize cs = Some (Inr t)"
    and "m_pTreeRoot t = Some r"
    and "CNode_Find (nodes t) r point = Some (Inr (Find_NoEntry, pFoundNode))"
    and "m_nodeType (nodes t pFoundNode) = Leaf"
  shows "\<exists>t1 pExistingSubRegion pSubRegion iterations.
           Insert_loop t pFoundNode (m_point (nodes t pFoundNode)) point 0 =
             Some (Inr (t1, pExistingSubRegion, pSubRegion, iterations)) \<and>
           iterations \<le> 64 \<and> pExistingSubRegion \<noteq> pSubRegion \<and>
           Contains (m_regionBounds (nodes t1 pExistingSubRegion))
             (m_point (nodes t pFoundNode)) \<and>
           Contains (m_regionBounds (nodes t1 pSubRegion)) point"
proof -
  from session_tree_ok[OF assms(1)] obtain k where tk: "tree_ok t k (inserted cs)" ..
  have r: "r = 0" using tk assms(2) by (simp add: tree_ok_def)
  from find_terminal[OF tk, of point] obtain g where
    g: "g < k" "Contains (m_regionBounds (nodes t g)) point" "\<not> has_child (nodes t g)"
      "node_ok (nodes t) k (inserted cs) g"
      "CNode_Find (nodes t) 0 point = Some (Find_result (nodes t g) g point)"
    by blast
  have fr: "Find_result (nodes t g) g point = Inr (Find_NoEntry, pFoundNode)"
    using g(5) assms(3) r by simp
  have gg: "g = pFoundNode" using fr by (rule Find_result_node[symmetric])
  note gf = g(1-4)[unfolded gg]
  define e where "e = m_point (nodes t pFoundNode)"
  have ne: "e \<noteq> point"
    using fr assms(4) unfolding gg
    by (auto simp: Find_result_def coord_eq_iff e_def split: if_splits)
  have ce: "Contains (m_regionBounds (nodes t pFoundNode)) e"
    using gf(4) gf(3) assms(4) by (auto simp: node_ok_def e_def)
  obtain j where j: "cell j (m_regionBounds (nodes t pFoundNode))"
    using gf(4) by (auto simp: node_ok_def)
  have j64: "j \<le> 64" using j by (simp add: cell_def seg_def)
  have pk: "pool_ok t k" using tk by (simp add: tree_ok_def)
  from Insert_loop_ok[OF pk gf(1) gf(3) j ce gf(2) ne, of 0] obtain t' pE pS n where
    "Insert_loop t pFoundNode e point 0 = Some (Inr (t', pE, pS, 0 + n))" "n \<le> j" "pE \<noteq> pS"
    "Contains (m_regionBounds (nodes t' pE)) e" "Contains (m_regionBounds (nodes t' pS)) point"
    by blast
  then show ?thesis using j64 unfolding e_def
    by (intro exI[of _ t'] exI[of _ pE] exI[of _ pS] exI[of _ n]) simp
qed

theorem collision_loop_terminates_witness:
  "\<exists>t t1 pE pS n.
      session 4 [Call_Insert (CCoordinate 0 0)] = Some (Inr t) \<and>
      CNode_Find (nodes t) 0 (CCoordinate 9 9) = Some (Inr (Find_NoEntry, 0)) \<and>
      m_nodeType (nodes t 0) = Leaf \<and>
      Insert_loop t 0 (m_point (nodes t 0)) (CCoordinate 9 9) 0 = Some (Inr (t1, pE, pS, n)) \<and>
      n \<le> 64 \<and> pE \<noteq> pS"
proof -
  have ev: "case session 4 [Call_Insert (CCoordinate 0 0)] of
      Some (Inr t) \<Rightarrow> m_pTreeRoot t = Some 0 \<and>
         CNode_Find (nodes t) 0 (CCoordinate 9 9) = Some (Inr (Find_NoEntry, 0)) \<and>
         m_nodeType (nodes t 0) = Leaf
    | _ \<Rightarrow> False"
    by code_simp
  then obtain t where t: "session 4 [Call_Insert (CCoordinate 0 0)] = Some (Inr t)"
    by (auto split: option.splits sum.splits)
  have h: "m_pTreeRoot t = Some 0"
    "CNode_Find (nodes t) 0 (CCoordinate 9 9) = Some (Inr (Find_NoEntry, 0))"
    "m_nodeType (nodes t 0) = Leaf"
    using ev by (simp_all add: t)
  from collision_loop_terminates[OF t h] show ?thesis using t h by blast
qed

text \<open>
  Claim C6 (\<^verbatim>\<open>Reset\<close>): in a tree reached by a sequence of calls, \<^verbatim>\<open>Reset\<close> returns,
  \<^verbatim>\<open>Find\<close> then returns NoEntry on every coordinate, and the root is a region without
  children whose point is the blank coordinate and whose bounds run from 0 to
  \<open>2\<^sup>6\<^sup>4 - 1\<close> on both axes.
\<close>

theorem Reset_clears:
  assumes "session pageSize cs = Some (Inr t)"
  shows "\<exists>t' r. Reset t = Inr t' \<and> (\<forall>p. Find t' p = Some (Inr Find_NoEntry)) \<and>
           m_pTreeRoot t' = Some r \<and> \<not> has_child (nodes t' r) \<and>
           m_nodeType (nodes t' r) = Region \<and> m_point (nodes t' r) = CCoordinate 0 0 \<and>
           m_regionBounds (nodes t' r) =
             CBounds (CCoordinate 0 0)
               (CCoordinate 18446744073709551615 18446744073709551615)"
proof -
  from session_tree_ok[OF assms] obtain k where tk: "tree_ok t k (inserted cs)" ..
  have pk: "pool_ok t k" using tk by (simp add: tree_ok_def)
  from Reset_ok[OF pk] obtain t' where
    t': "Reset t = Inr t'" "tree_ok t' 1 {}" "nodes t' 0 = region_node full_bounds 1"
    by blast
  have f: "Find t' p = Some (Inr Find_NoEntry)" for p using Find_ok[OF t'(2), of p] by simp
  have r: "m_pTreeRoot t' = Some 0" using t'(2) by (simp add: tree_ok_def)
  have m: "(- 1 :: 64 word) = 18446744073709551615" by simp
  show ?thesis
    using t'(1) f r
    by (intro exI[of _ t'] exI[of _ 0])
      (simp add: t'(3) region_node_def CNode_default_def has_child_def full_bounds_def
        CCoordinate_default_def m)
qed

theorem Reset_clears_witness:
  "\<exists>t t'. session 4 [Call_Insert (CCoordinate 3 5)] = Some (Inr t) \<and>
       Find t (CCoordinate 3 5) = Some (Inr Find_Success) \<and>
       Reset t = Inr t' \<and> Find t' (CCoordinate 3 5) = Some (Inr Find_NoEntry)"
proof -
  have ps: "(2::nat) \<le> 4" by simp
  from session_ok[OF ps, of "[Call_Insert (CCoordinate 3 5)]"] obtain t k where
    t: "session 4 [Call_Insert (CCoordinate 3 5)] = Some (Inr t)"
      "tree_ok t k (inserted [Call_Insert (CCoordinate 3 5)])"
    by blast
  have f: "Find t (CCoordinate 3 5) = Some (Inr Find_Success)"
    using Find_ok[OF t(2), of "CCoordinate 3 5"] by (simp add: inserted_def)
  from Reset_clears[OF t(1)] show ?thesis using t(1) f by blast
qed

text \<open>
  Claim C7 (order independence) says that after inserting any set of distinct coordinates,
  in any order, \<^verbatim>\<open>Find\<close> succeeds on exactly these coordinates and \<^verbatim>\<open>SanityCheck\<close> passes.
  The first half holds (C1); the second does not: with \<open>(2, 2)\<close> and \<open>(3, 3)\<close> inserted,
  the two coordinates are found, and \<^verbatim>\<open>SanityCheck\<close> fails an assertion. The node whose
  bounds are the two-by-two square around them has been split, and for such a node
  \<^verbatim>\<open>assert(NorthWest.min.y < NorthEast.max.y)\<close> compares two equal values.
\<close>

theorem SanityCheck_fails_on_neighbours:
  "\<exists>t. session 32768 [Call_Insert (CCoordinate 2 2), Call_Insert (CCoordinate 3 3)] =
          Some (Inr t) \<and>
       Find t (CCoordinate 2 2) = Some (Inr Find_Success) \<and>
       Find t (CCoordinate 3 3) = Some (Inr Find_Success) \<and>
       SanityCheck t = Some (Inl AssertionFailed)"
proof -
  have ps: "(2::nat) \<le> 32768" by simp
  have cr: "crowded (inserted [Call_Insert (CCoordinate 2 2), Call_Insert (CCoordinate 3 3)])"
    unfolding crowded_def inserted_def
    by (intro exI[of _ "CCoordinate 2 2"] exI[of _ "CCoordinate 3 3"]) (simp add: quad_2_3)
  from session_verdict[OF ps, of "[Call_Insert (CCoordinate 2 2), Call_Insert (CCoordinate 3 3)]"]
  show ?thesis using cr by (auto simp: inserted_def)
qed

text \<open>
  Claim C8 (OutOfRegionBounds): in a tree reached by a sequence of calls, \<^verbatim>\<open>Insert\<close> and
  \<^verbatim>\<open>Find\<close> return for every coordinate (the assertion that the root bounds contain it
  does not fire), and neither returns OutOfRegionBounds.
\<close>

theorem OutOfRegionBounds_unreachable:
  assumes "session pageSize cs = Some (Inr t)"
  shows "(\<exists>t' r. Insert t p = Some (Inr (t', r)) \<and> r \<noteq> Insert_OutOfRegionBounds) \<and>
         (\<exists>r. Find t p = Some (Inr r) \<and> r \<noteq> Find_OutOfRegionBounds)"
proof -
  from session_tree_ok[OF assms] obtain k where tk: "tree_ok t k (inserted cs)" ..
  from Insert_ok[OF tk, of p] have "\<exists>t' r. Insert t p = Some (Inr (t', r)) \<and>
      r \<noteq> Insert_OutOfRegionBounds"
    by (cases "p \<in> inserted cs") auto
  moreover have "\<exists>r. Find t p = Some (Inr r) \<and> r \<noteq> Find_OutOfRegionBounds"
    using Find_ok[OF tk, of p] by (cases "p \<in> inserted cs") auto
  ultimately show ?thesis by blast
qed

theorem OutOfRegionBounds_unreachable_witness:
  "\<exists>t. session 4 [Call_Insert (CCoordinate 3 5)] = Some (Inr t) \<and>
     (\<exists>t' r. Insert t (CCoordinate 18446744073709551615 0) = Some (Inr (t', r)) \<and>
        r \<noteq> Insert_OutOfRegionBounds) \<and>
     (\<exists>r. Find t (CCoordinate 18446744073709551615 0) = Some (Inr r) \<and>
        r \<noteq> Find_OutOfRegionBounds)"
proof -
  have ps: "(2::nat) \<le> 4" by simp
  from session_ok[OF ps, of "[Call_Insert (CCoordinate 3 5)]"] obtain t where
    t: "session 4 [Call_Insert (CCoordinate 3 5)] = Some (Inr t)"
    by blast
  from OutOfRegionBounds_unreachable[OF t] show ?thesis using t by blast
qed

text \<open>
  Claim C9 (page sizes): for two page sizes of at least two and the same sequence of calls,
  both trees are built without a failed assertion, \<^verbatim>\<open>Find\<close> returns the same outcome on
  every coordinate in both, and \<^verbatim>\<open>SanityCheck\<close> returns the same verdict on both.
\<close>

theorem page_size_equivalence:
  assumes "2 \<le> smallPageSize" "2 \<le> largePageSize"
  shows "\<exists>t1 t2. session smallPageSize cs = Some (Inr t1) \<and>
           session largePageSize cs = Some (Inr t2) \<and>
           (\<forall>p. \<exists>r. Find t1 p = Some (Inr r) \<and> Find t2 p = Some (Inr r)) \<and>
           (\<exists>v. SanityCheck t1 = Some v \<and> SanityCheck t2 = Some v)"
proof -
  from session_verdict[OF assms(1), of cs] obtain t1 where
    t1: "session smallPageSize cs = Some (Inr t1)"
      "\<forall>p. Find t1 p = Some (Inr (if p \<in> inserted cs then Find_Success else Find_NoEntry))"
      "SanityCheck t1 = Some (if crowded (inserted cs) then Inl AssertionFailed else Inr ())"
    by blast
  from session_verdict[OF assms(2), of cs] obtain t2 where
    t2: "session largePageSize cs = Some (Inr t2)"
      "\<forall>p. Find t2 p = Some (Inr (if p \<in> inserted cs then Find_Success else Find_NoEntry))"
      "SanityCheck t2 = Some (if crowded (inserted cs) then Inl AssertionFailed else Inr ())"
    by blast
  show ?thesis
    using t1 t2 by (intro exI[of _ t1] exI[of _ t2]) simp
qed

theorem page_size_equivalence_witness:
  "\<exists>t1 t2.
      session 4 [Call_Insert (CCoordinate 0 0),
                 Call_Insert (CCoordinate 18446744073709551615 18446744073709551615)] =
        Some (Inr t1) \<and>
      session 64 [Call_Insert (CCoordinate 0 0),
                  Call_Insert (CCoordinate 18446744073709551615 18446744073709551615)] =
        Some (Inr t2) \<and>
      length (m_pages t1) = 2 \<and> length (m_pages t2) = 1 \<and>
      (\<forall>p. \<exists>r. Find t1 p = Some (Inr r) \<and> Find t2 p = Some (Inr r)) \<and>
      (\<exists>v. SanityCheck t1 = Some v \<and> SanityCheck t2 = Some v)"
proof -
  define cs where "cs = [Call_Insert (CCoordinate 0 0),
                 Call_Insert (CCoordinate 18446744073709551615 18446744073709551615)]"
  have e1: "case session 4 cs of Some (Inr t) \<Rightarrow> length (m_pages t) = 2 | _ \<Rightarrow> False"
    unfolding cs_def by code_simp
  have e2: "case session 64 cs of Some (Inr t) \<Rightarrow> length (m_pages t) = 1 | _ \<Rightarrow> False"
    unfolding cs_def by code_simp
  have ps: "(2::nat) \<le> 4" "(2::nat) \<le> 64" by simp_all
  from page_size_equivalence[OF ps, of cs] obtain t1 t2 where
    t: "session 4 cs = Some (Inr t1)" "session 64 cs = Some (Inr t2)"
      "\<forall>p. \<exists>r. Find t1 p = Some (Inr r) \<and> Find t2 p = Some (Inr r)"
      "\<exists>v. SanityCheck t1 = Some v \<and> SanityCheck t2 = Some v"
    by blast
  have "length (m_pages t1) = 2" "length (m_pages t2) = 1"
    using e1 e2 by (simp_all add: t)
  then show ?thesis using t unfolding cs_def by blast
qed

text \<open>
  Claim C10 (the coordinate \<open>(0, 0)\<close>) says that inserting \<open>(0, 0)\<close> into a tree that does
  not contain it behaves as for any coordinate and that \<^verbatim>\<open>SanityCheck\<close> passes throughout.
  The \<^verbatim>\<open>Insert\<close> and \<^verbatim>\<open>Find\<close> part holds. \<^verbatim>\<open>SanityCheck\<close> does not pass throughout: on
  the tree that holds \<open>(1, 1)\<close> it passes; after \<open>(0, 0)\<close> is inserted, it fails an
  assertion.
\<close>

theorem SanityCheck_fails_after_origin:
  "\<exists>t t'. session 32768 [Call_Insert (CCoordinate 1 1)] = Some (Inr t) \<and>
       SanityCheck t = Some (Inr ()) \<and>
       Find t (CCoordinate 0 0) = Some (Inr Find_NoEntry) \<and>
       Insert t (CCoordinate 0 0) = Some (Inr (t', Insert_Success)) \<and>
       Find t' (CCoordinate 0 0) = Some (Inr Find_Success) \<and>
       Insert t' (CCoordinate 0 0) = Some (Inr (t', Insert_DuplicateEntry)) \<and>
       SanityCheck t' = Some (Inl AssertionFailed)"
proof -
  have ps: "(2::nat) \<le> 32768" by simp
  from session_ok[OF ps, of "[Call_Insert (CCoordinate 1 1)]"] obtain t k where
    t: "session 32768 [Call_Insert (CCoordinate 1 1)] = Some (Inr t)"
      "tree_ok t k (inserted [Call_Insert (CCoordinate 1 1)])"
    by blast
  have ins: "inserted [Call_Insert (CCoordinate 1 1)] = {CCoordinate 1 1}"
    by (simp add: inserted_def)
  note tk = t(2)[unfolded ins]
  have nc: "\<not> crowded {CCoordinate 1 1}" by (simp add: crowded_def)
  have s0: "SanityCheck t = Some (Inr ())" using SanityCheck_ok[OF tk] nc by simp
  have f0: "Find t (CCoordinate 0 0) = Some (Inr Find_NoEntry)"
    using Find_ok[OF tk, of "CCoordinate 0 0"] by simp
  from Insert_ok[OF tk, of "CCoordinate 0 0"] obtain t' k' where
    t': "Insert t (CCoordinate 0 0) = Some (Inr (t', Insert_Success))"
      "tree_ok t' k' {CCoordinate 0 0, CCoordinate 1 1}"
    by auto
  have f1: "Find t' (CCoordinate 0 0) = Some (Inr Find_Success)"
    using Find_ok[OF t'(2), of "CCoordinate 0 0"] by simp
  have d: "Insert t' (CCoordinate 0 0) = Some (Inr (t', Insert_DuplicateEntry))"
    using Insert_duplicate[OF t'(2), of "CCoordinate 0 0"] by simp
  have cr: "crowded {CCoordinate 0 0, CCoordinate 1 1}"
    unfolding crowded_def
    by (intro exI[of _ "CCoordinate 0 0"] exI[of _ "CCoordinate 1 1"]) (simp add: quad_0_1)
  have s1: "SanityCheck t' = Some (Inl AssertionFailed)" using SanityCheck_ok[OF t'(2)] cr by simp
  show ?thesis using t(1) s0 f0 t'(1) f1 d s1 by blast
qed

section \<open>Further properties\<close>

text \<open>
  The verdict of \<^verbatim>\<open>SanityCheck\<close>: on a tree reached by a sequence of calls it returns, and
  it passes exactly when no two of the coordinates inserted since the last \<^verbatim>\<open>Reset\<close> agree
  in \<open>x div 2\<close> and in \<open>y div 2\<close>.
\<close>

theorem SanityCheck_verdict:
  assumes "session pageSize cs = Some (Inr t)"
  shows "SanityCheck t = Some (if crowded (inserted cs) then Inl AssertionFailed else Inr ())"
proof -
  from session_tree_ok[OF assms] obtain k where tk: "tree_ok t k (inserted cs)" ..
  then show ?thesis by (rule SanityCheck_ok)
qed

theorem SanityCheck_verdict_witness:
  "\<exists>t. session 4 [Call_Insert (CCoordinate 4 4), Call_Insert (CCoordinate 7 7)] = Some (Inr t) \<and>
       SanityCheck t = Some (Inr ())"
proof -
  have ps: "(2::nat) \<le> 4" by simp
  from session_ok[OF ps, of "[Call_Insert (CCoordinate 4 4), Call_Insert (CCoordinate 7 7)]"]
  obtain t where
    t: "session 4 [Call_Insert (CCoordinate 4 4), Call_Insert (CCoordinate 7 7)] = Some (Inr t)"
    by blast
  have "\<not> crowded (inserted [Call_Insert (CCoordinate 4 4), Call_Insert (CCoordinate 7 7)])"
    by (auto simp: crowded_def inserted_def same_quad_def)
  then show ?thesis using SanityCheck_verdict[OF t] t by auto
qed

text \<open>
  The order of insertion: two trees of the same page size that received the same set of
  coordinates, in any order and with any repetitions, give the same \<^verbatim>\<open>Find\<close> outcome on
  every coordinate and the same \<^verbatim>\<open>SanityCheck\<close> verdict.
\<close>

theorem insertion_order_irrelevant:
  assumes "2 \<le> pageSize" "set ps = set qs"
  shows "\<exists>t1 t2. session pageSize (map Call_Insert ps) = Some (Inr t1) \<and>
           session pageSize (map Call_Insert qs) = Some (Inr t2) \<and>
           (\<forall>p. Find t1 p = Some (Inr (if p \<in> set ps then Find_Success else Find_NoEntry)) \<and>
                Find t2 p = Find t1 p) \<and>
           (\<exists>v. SanityCheck t1 = Some v \<and> SanityCheck t2 = Some v)"
proof -
  from session_verdict[OF assms(1), of "map Call_Insert ps"] obtain t1 where
    t1: "session pageSize (map Call_Insert ps) = Some (Inr t1)"
      "\<forall>p. Find t1 p = Some (Inr (if p \<in> set ps then Find_Success else Find_NoEntry))"
      "SanityCheck t1 = Some (if crowded (set ps) then Inl AssertionFailed else Inr ())"
    unfolding inserted_map by blast
  from session_verdict[OF assms(1), of "map Call_Insert qs"] obtain t2 where
    t2: "session pageSize (map Call_Insert qs) = Some (Inr t2)"
      "\<forall>p. Find t2 p = Some (Inr (if p \<in> set ps then Find_Success else Find_NoEntry))"
      "SanityCheck t2 = Some (if crowded (set ps) then Inl AssertionFailed else Inr ())"
    unfolding inserted_map assms(2)[symmetric] by blast
  show ?thesis
    using t1 t2 by (intro exI[of _ t1] exI[of _ t2]) simp
qed

theorem insertion_order_irrelevant_witness:
  "\<exists>t1 t2.
      session 4 (map Call_Insert [CCoordinate 0 0, CCoordinate 9 9, CCoordinate 5 1]) =
        Some (Inr t1) \<and>
      session 4 (map Call_Insert [CCoordinate 5 1, CCoordinate 0 0, CCoordinate 9 9]) =
        Some (Inr t2) \<and>
      Find t1 (CCoordinate 9 9) = Some (Inr Find_Success) \<and>
      Find t2 (CCoordinate 9 9) = Some (Inr Find_Success) \<and>
      (\<exists>v. SanityCheck t1 = Some v \<and> SanityCheck t2 = Some v)"
proof -
  have ps: "(2::nat) \<le> 4" by simp
  have s: "set [CCoordinate 0 0, CCoordinate 9 9, CCoordinate 5 1] =
           set [CCoordinate 5 1, CCoordinate 0 0, CCoordinate 9 9]"
    by auto
  from insertion_order_irrelevant[OF ps s] show ?thesis by fastforce
qed

text \<open>
  The allocator: in a tree reached by a sequence of calls, \<^verbatim>\<open>AllocateNode\<close> returns without
  a failed assertion; it hands out the node at the head of the free list, blank but for
  its link, and the free list still has a head afterwards.
\<close>

theorem AllocateNode_never_fails:
  assumes "session pageSize cs = Some (Inr t)"
  shows "\<exists>t' a. AllocateNode t = Inr (t', a) \<and> m_pPoolHead t = Some a \<and>
           nodes t' a = CNode_default\<lparr>pPoolNext := m_pPoolHead t'\<rparr> \<and>
           m_pPoolHead t' \<noteq> None \<and> m_pTreeRoot t' = m_pTreeRoot t"
proof -
  from session_tree_ok[OF assms] obtain k where tk: "tree_ok t k (inserted cs)" ..
  have pk: "pool_ok t k" using tk by (simp add: tree_ok_def)
  from AllocateNode_ok[OF pk] obtain t' where
    t': "AllocateNode t = Inr (t', k)" "pool_ok t' (Suc k)"
      "nodes t' k = CNode_default\<lparr>pPoolNext := Some (Suc k)\<rparr>"
      "m_pTreeRoot t' = m_pTreeRoot t"
    by blast
  show ?thesis
    using t' pk by (intro exI[of _ t'] exI[of _ k]) (simp add: pool_ok_def)
qed

theorem AllocateNode_never_fails_witness:
  "\<exists>t t' a. session 2 [Call_Insert (CCoordinate 3 5)] = Some (Inr t) \<and>
       AllocateNode t = Inr (t', a) \<and> m_pPoolHead t = Some a \<and> m_pPoolHead t' \<noteq> None"
proof -
  have ps: "(2::nat) \<le> 2" by simp
  from session_ok[OF ps, of "[Call_Insert (CCoordinate 3 5)]"] obtain t where
    t: "session 2 [Call_Insert (CCoordinate 3 5)] = Some (Inr t)"
    by blast
  from AllocateNode_never_fails[OF t] show ?thesis using t by blast
qed

end
